theory Spec2Isabelle
  imports Complex_Main
begin

section \<open>Constants of the engine\<close>

text \<open>
  The engine is \<^verbatim>\<open>alphaBetaPruning_connect4.py\<close>. Heuristic values are Python numbers:
  integers everywhere except the root placeholder \<^verbatim>\<open>0.00001\<close>, a double. Python compares
  an integer with a double exactly, so a value is modelled as a rational number and the
  placeholder as the exact rational value of that double.
\<close>

definition VIC :: rat where "VIC = 10 ^ 20"
definition LOSS :: rat where "LOSS = - VIC"
definition TIE :: rat where "TIE = 0"
definition DEPTH :: nat where "DEPTH = 4"
definition COMPUTER :: int where "COMPUTER = 2"
definition HUMAN :: int where "HUMAN = 1"
definition EMPTY :: int where "EMPTY = 0"
definition ROW_COUNT :: nat where "ROW_COUNT = 6"
definition COLUMN_COUNT :: nat where "COLUMN_COUNT = 7"

text \<open>The double written \<^verbatim>\<open>0.00001\<close>: \<open>5902958103587057 / 2 ^ 69\<close>.\<close>

definition PLACEHOLDER :: rat where
  "PLACEHOLDER = 5902958103587057 / 590295810358705651712"

section \<open>Data model\<close>

text \<open>
  The board is a numpy array of shape (6, 7), row 0 at the bottom. It is modelled as the list
  of its rows; \<open>shape_ok\<close> is the shape. The theorems on the claims assume it: on a list
  of another shape an array access of the source raises, and \<open>!\<close> does not. A state is the
  Python list \<^verbatim>\<open>[board, heuristic_value, whose_turn, empty_cells]\<close>.
\<close>

type_synonym grid = "int list list"

definition shape_ok :: "grid \<Rightarrow> bool" where
  "shape_ok b \<longleftrightarrow> length b = ROW_COUNT \<and> list_all (\<lambda>row. length row = COLUMN_COUNT) b"

record state =
  board :: grid
  heuristic_value :: rat
  whose_turn :: int
  empty_cells :: int

text \<open>The only exception the engine can raise on a (6, 7) board: a column index past the end.\<close>

datatype error = IndexError

text \<open>
  The values that the two search functions pass around: numbers, and the two infinities
  \<^verbatim>\<open>float("-inf")\<close> and \<^verbatim>\<open>float("inf")\<close> the running best value starts from.
\<close>

datatype pyval = NegInf | Fin rat | PosInf

instantiation pyval :: linorder
begin

fun less_eq_pyval :: "pyval \<Rightarrow> pyval \<Rightarrow> bool" where
  "less_eq_pyval NegInf _ = True"
| "less_eq_pyval (Fin x) NegInf = False"
| "less_eq_pyval (Fin x) (Fin y) = (x \<le> y)"
| "less_eq_pyval (Fin x) PosInf = True"
| "less_eq_pyval PosInf PosInf = True"
| "less_eq_pyval PosInf _ = False"

definition less_pyval :: "pyval \<Rightarrow> pyval \<Rightarrow> bool" where
  "less_pyval x y \<longleftrightarrow> x \<le> y \<and> \<not> y \<le> x"

instance
proof
  fix x y z :: pyval
  show "(x < y) = (x \<le> y \<and> \<not> y \<le> x)" by (simp add: less_pyval_def)
  show "x \<le> x" by (cases x) simp_all
  show "x \<le> y \<Longrightarrow> y \<le> z \<Longrightarrow> x \<le> z" by (cases x; cases y; cases z) simp_all
  show "x \<le> y \<Longrightarrow> y \<le> x \<Longrightarrow> x = y" by (cases x; cases y) simp_all
  show "x \<le> y \<or> y \<le> x" by (cases x; cases y) auto
qed

end

section \<open>Board model\<close>

definition create_state :: "grid \<Rightarrow> state" where
  "create_state b =
     \<lparr>board = b, heuristic_value = PLACEHOLDER, whose_turn = COMPUTER,
      empty_cells = int (sum_list (map (\<lambda>row. count_list row 0) b))\<rparr>"

definition state_value :: "state \<Rightarrow> rat" where
  "state_value s = heuristic_value s"

definition is_finished :: "state \<Rightarrow> bool" where
  "is_finished s \<longleftrightarrow> heuristic_value s \<in> set [LOSS, VIC, TIE] \<or> empty_cells s = 0"

definition is_hum_turn :: "state \<Rightarrow> bool" where
  "is_hum_turn s \<longleftrightarrow> whose_turn s = HUMAN"

definition get_valid_columns :: "grid \<Rightarrow> nat list" where
  "get_valid_columns b = filter (\<lambda>col. b ! (ROW_COUNT - 1) ! col = EMPTY) [0..<COLUMN_COUNT]"

text \<open>
  \<^verbatim>\<open>get_next_row\<close> scans the rows in the list it is given and returns the first empty one,
  or \<open>-1\<close>. A column index \<open>\<ge> 7\<close> raises IndexError at the first read.
\<close>

fun first_empty_row :: "grid \<Rightarrow> nat \<Rightarrow> nat list \<Rightarrow> int" where
  "first_empty_row b col [] = - 1"
| "first_empty_row b col (row # rows) =
     (if b ! row ! col = EMPTY then int row else first_empty_row b col rows)"

definition get_next_row :: "grid \<Rightarrow> nat \<Rightarrow> error + int" where
  "get_next_row b col =
     (if col \<ge> COLUMN_COUNT then Inl IndexError
      else Inr (first_empty_row b col [0..<ROW_COUNT]))"

definition check_win :: "grid \<Rightarrow> int \<Rightarrow> bool" where
  "check_win b piece \<longleftrightarrow>
     list_ex (\<lambda>c. list_ex (\<lambda>r.
        b ! r ! c = piece \<and> b ! r ! (c + 1) = piece \<and>
        b ! r ! (c + 2) = piece \<and> b ! r ! (c + 3) = piece)
        [0..<ROW_COUNT]) [0..<COLUMN_COUNT - 3]
   \<or> list_ex (\<lambda>c. list_ex (\<lambda>r.
        b ! r ! c = piece \<and> b ! (r + 1) ! c = piece \<and>
        b ! (r + 2) ! c = piece \<and> b ! (r + 3) ! c = piece)
        [0..<ROW_COUNT - 3]) [0..<COLUMN_COUNT]
   \<or> list_ex (\<lambda>c. list_ex (\<lambda>r.
        b ! r ! c = piece \<and> b ! (r + 1) ! (c + 1) = piece \<and>
        b ! (r + 2) ! (c + 2) = piece \<and> b ! (r + 3) ! (c + 3) = piece)
        [0..<ROW_COUNT - 3]) [0..<COLUMN_COUNT - 3]
   \<or> list_ex (\<lambda>c. list_ex (\<lambda>r.
        b ! r ! c = piece \<and> b ! (r - 1) ! (c + 1) = piece \<and>
        b ! (r - 2) ! (c + 2) = piece \<and> b ! (r - 3) ! (c + 3) = piece)
        [3..<ROW_COUNT]) [0..<COLUMN_COUNT - 3]"

section \<open>Evaluator\<close>

definition evaluate_window :: "int list \<Rightarrow> int \<Rightarrow> int" where
  "evaluate_window window piece =
     (let opp_piece = (if piece = COMPUTER then HUMAN else COMPUTER);
          piece_count = count_list window piece;
          empty_count = count_list window EMPTY;
          opp_count = count_list window opp_piece;
          score = (if piece_count = 4 then 100
                   else if piece_count = 3 \<and> empty_count = 1 then 5
                   else if piece_count = 2 \<and> empty_count = 2 then 2
                   else 0)
      in if opp_count = 3 \<and> empty_count = 1 then score - 50
         else if opp_count = 2 \<and> empty_count = 2 then score - 3
         else score)"

text \<open>
  A window is an array slice, here a list of four cells. \<open>bottom_penalty\<close> is the block of
  \<^verbatim>\<open>score_position\<close> that scans the bottom row; the four nested loops are the four sums.
\<close>

definition bottom_penalty :: "grid \<Rightarrow> int \<Rightarrow> int" where
  "bottom_penalty b opp_piece =
     (let bottom_row = b ! 0 in
      if count_list bottom_row opp_piece = 2 then
        (\<Sum>c\<leftarrow>[0..<COLUMN_COUNT - 3].
           (let window = take 4 (drop c bottom_row) in
            if count_list window opp_piece = 2 \<and> count_list window EMPTY = 2
            then - 10 else 0))
      else 0)"

definition score_position :: "grid \<Rightarrow> int \<Rightarrow> int" where
  "score_position b piece =
     (let center_array = map (\<lambda>row. row ! (COLUMN_COUNT div 2)) b;
          center_count = count_list center_array piece;
          opp_piece = (if piece = COMPUTER then HUMAN else COMPUTER)
      in int center_count * 6
       + bottom_penalty b opp_piece
       + (\<Sum>r\<leftarrow>[0..<ROW_COUNT]. \<Sum>c\<leftarrow>[0..<COLUMN_COUNT - 3].
            evaluate_window (take 4 (drop c (b ! r))) piece)
       + (\<Sum>c\<leftarrow>[0..<COLUMN_COUNT]. \<Sum>r\<leftarrow>[0..<ROW_COUNT - 3].
            evaluate_window (map (\<lambda>row. row ! c) (take 4 (drop r b))) piece)
       + (\<Sum>r\<leftarrow>[0..<ROW_COUNT - 3]. \<Sum>c\<leftarrow>[0..<COLUMN_COUNT - 3].
            evaluate_window (map (\<lambda>i. b ! (r + i) ! (c + i)) [0..<4]) piece)
       + (\<Sum>r\<leftarrow>[0..<ROW_COUNT - 3]. \<Sum>c\<leftarrow>[0..<COLUMN_COUNT - 3].
            evaluate_window (map (\<lambda>i. b ! (r + 3 - i) ! (c + i)) [0..<4]) piece))"

section \<open>Applying a move\<close>

text \<open>
  \<^verbatim>\<open>make_move\<close> mutates the state it is given; the model returns the state after the call.
  The early \<^verbatim>\<open>return\<close> on a full column is the branch that returns the state as it was.
  \<open>classify\<close> is the chain of tests at the end of \<^verbatim>\<open>make_move\<close> that sets the value.
\<close>

definition classify :: "grid \<Rightarrow> int \<Rightarrow> rat" where
  "classify b n_empty =
     (if check_win b COMPUTER then VIC
      else if check_win b HUMAN then LOSS
      else if n_empty = 0 then TIE
      else of_int (score_position b COMPUTER - score_position b HUMAN))"

definition make_move :: "state \<Rightarrow> nat \<Rightarrow> error + state" where
  "make_move s col =
     (case get_next_row (board s) col of
        Inl e \<Rightarrow> Inl e
      | Inr row \<Rightarrow>
          if row = - 1 then Inr s
          else
            let b = (board s)[nat row := (board s ! nat row)[col := whose_turn s]];
                n_empty = empty_cells s - 1;
                turn = (if whose_turn s = HUMAN then COMPUTER else HUMAN)
            in Inr \<lparr>board = b, heuristic_value = classify b n_empty,
                    whose_turn = turn, empty_cells = n_empty\<rparr>)"

section \<open>Move generator\<close>

text \<open>
  A child is the Python list of the copied state with the column appended:
  \<^verbatim>\<open>state[:4]\<close> is the first component, \<^verbatim>\<open>state[-1]\<close> the second. The stable
  \<^verbatim>\<open>sorted\<close> is the stable insertion sort \<open>sort_key\<close>. \<^verbatim>\<open>copy.deepcopy(s)\<close> is the value
  \<open>s\<close> itself: values are immutable here, so the caller's \<open>s\<close> is never changed.
\<close>

type_synonym child = "state \<times> nat"

fun get_next_loop :: "state \<Rightarrow> nat list \<Rightarrow> error + child list" where
  "get_next_loop s [] = Inr []"
| "get_next_loop s (col # cols) =
     (case make_move s col of
        Inl e \<Rightarrow> Inl e
      | Inr state_copy \<Rightarrow>
          (case get_next_loop s cols of
             Inl e \<Rightarrow> Inl e
           | Inr next_states \<Rightarrow> Inr ((state_copy, col) # next_states)))"

definition get_next :: "state \<Rightarrow> error + child list" where
  "get_next s =
     (let valid_cols = get_valid_columns (board s);
          center = COLUMN_COUNT div 2;
          ordered_cols = sort_key (\<lambda>x. \<bar>int x - int center\<bar>) valid_cols
      in get_next_loop s ordered_cols)"

section \<open>Search engine\<close>

text \<open>
  \<open>abmax\<close> and \<open>abmin\<close> with their \<^verbatim>\<open>for\<close> loops. A loop takes the children still to visit, the
  depth \<open>d - 1\<close> of the recursive calls, the bounds, the running best value \<open>v\<close> and
  \<open>best_col\<close>. The result is the Python list \<^verbatim>\<open>[v, col]\<close>.
\<close>

function abmax :: "state \<Rightarrow> nat \<Rightarrow> pyval \<Rightarrow> pyval \<Rightarrow> error + (pyval \<times> nat)"
  and abmax_loop :: "child list \<Rightarrow> nat \<Rightarrow> pyval \<Rightarrow> pyval \<Rightarrow> pyval \<Rightarrow> nat \<Rightarrow> error + (pyval \<times> nat)"
  and abmin :: "state \<Rightarrow> nat \<Rightarrow> pyval \<Rightarrow> pyval \<Rightarrow> error + (pyval \<times> nat)"
  and abmin_loop :: "child list \<Rightarrow> nat \<Rightarrow> pyval \<Rightarrow> pyval \<Rightarrow> pyval \<Rightarrow> nat \<Rightarrow> error + (pyval \<times> nat)"
where
  "abmax s d a b =
     (if d = 0 \<or> is_finished s then Inr (Fin (state_value s), 0)
      else case get_next s of
             Inl e \<Rightarrow> Inl e
           | Inr next_states \<Rightarrow> abmax_loop next_states (d - 1) a b NegInf 0)"
| "abmax_loop [] d1 a b v best_col = Inr (v, best_col)"
| "abmax_loop ((state, col_played) # rest) d1 a b v best_col =
     (case abmin state d1 a b of
        Inl e \<Rightarrow> Inl e
      | Inr tmp \<Rightarrow>
          let v' = (if fst tmp > v then fst tmp else v);
              best_col' = (if fst tmp > v then col_played else best_col)
          in if v' \<ge> b then Inr (v', col_played)
             else abmax_loop rest d1 (if v' > a then v' else a) b v' best_col')"
| "abmin s d a b =
     (if d = 0 \<or> is_finished s then Inr (Fin (state_value s), 0)
      else case get_next s of
             Inl e \<Rightarrow> Inl e
           | Inr next_states \<Rightarrow> abmin_loop next_states (d - 1) a b PosInf 0)"
| "abmin_loop [] d1 a b v best_col = Inr (v, best_col)"
| "abmin_loop ((state, col_played) # rest) d1 a b v best_col =
     (case abmax state d1 a b of
        Inl e \<Rightarrow> Inl e
      | Inr tmp \<Rightarrow>
          let v' = (if fst tmp < v then fst tmp else v);
              best_col' = (if fst tmp < v then col_played else best_col)
          in if v' \<le> a then Inr (v', col_played)
             else abmin_loop rest d1 a (if v' < b then v' else b) v' best_col')"
  by pat_completeness auto

termination
  by (relation "inv_image (less_than <*lex*> less_than)
        (\<lambda>x. case x of
           Inl (Inl (s, d, a, b)) \<Rightarrow> (2 * d, 0)
         | Inl (Inr (cs, d1, a, b, v, c)) \<Rightarrow> (2 * d1 + 1, length cs)
         | Inr (Inl (s, d, a, b)) \<Rightarrow> (2 * d, 0)
         | Inr (Inr (cs, d1, a, b, v, c)) \<Rightarrow> (2 * d1 + 1, length cs))")
     auto

section \<open>Decision entry point\<close>

definition go :: "grid \<Rightarrow> error + nat" where
  "go b =
     (let state = create_state b in
      case abmax state DEPTH (Fin (LOSS - 1)) (Fin (VIC + 1)) of
        Inl e \<Rightarrow> Inl e
      | Inr result \<Rightarrow> Inr (snd result))"

section \<open>Predicates and example boards used in the statements\<close>

text \<open>
  A column is legal when its topmost cell is empty, full when no cell of it is empty; the
  lowest empty row of a column is where gravity puts the next piece.
\<close>

definition legal_column :: "grid \<Rightarrow> nat \<Rightarrow> bool" where
  "legal_column b col \<longleftrightarrow> col < COLUMN_COUNT \<and> b ! (ROW_COUNT - 1) ! col = EMPTY"

definition column_full :: "grid \<Rightarrow> nat \<Rightarrow> bool" where
  "column_full b col \<longleftrightarrow>
     col < COLUMN_COUNT \<and> list_all (\<lambda>r. b ! r ! col \<noteq> EMPTY) [0..<ROW_COUNT]"

definition lowest_empty :: "grid \<Rightarrow> nat \<Rightarrow> nat \<Rightarrow> bool" where
  "lowest_empty b col row \<longleftrightarrow>
     row < ROW_COUNT \<and> b ! row ! col = EMPTY \<and> list_all (\<lambda>r. b ! r ! col \<noteq> EMPTY) [0..<row]"

definition empty_board :: grid where
  "empty_board = replicate 6 (replicate 7 0)"

definition full_column_board :: grid where
  "full_column_board =
     [[1, 0, 0, 2, 0, 0, 0],
      [2, 0, 0, 1, 0, 0, 0],
      [1, 0, 0, 0, 0, 0, 0],
      [2, 0, 0, 0, 0, 0, 0],
      [1, 0, 0, 0, 0, 0, 0],
      [2, 0, 0, 0, 0, 0, 0]]"

definition sample_board :: grid where
  "sample_board =
     [[0, 1, 0, 1, 2, 2, 0],
      [0, 1, 0, 1, 2, 0, 0],
      [0, 0, 0, 2, 1, 0, 0],
      [0, 0, 0, 0, 0, 0, 0],
      [0, 0, 0, 0, 0, 0, 0],
      [0, 0, 0, 0, 0, 0, 0]]"

section \<open>The scoring rule as the specification words it\<close>

text \<open>
  The specification's reading of the evaluator, to be compared with \<open>score_position\<close>: a
  window is the list of the coordinates of four cells in a line; the score is the centre
  bonus, plus the delta of every window in the four orientations, plus the bottom-row
  penalty. The opponent of a player is the other of the two players.
\<close>

definition other_player :: "int \<Rightarrow> int" where
  "other_player p = COMPUTER + HUMAN - p"

definition horizontal_windows :: "(nat \<times> nat) list list" where
  "horizontal_windows = [[(r, c), (r, c + 1), (r, c + 2), (r, c + 3)]. r \<leftarrow> [0..<6], c \<leftarrow> [0..<4]]"

definition vertical_windows :: "(nat \<times> nat) list list" where
  "vertical_windows = [[(r, c), (r + 1, c), (r + 2, c), (r + 3, c)]. c \<leftarrow> [0..<7], r \<leftarrow> [0..<3]]"

definition rising_windows :: "(nat \<times> nat) list list" where
  "rising_windows = [[(r, c), (r + 1, c + 1), (r + 2, c + 2), (r + 3, c + 3)]. r \<leftarrow> [0..<3], c \<leftarrow> [0..<4]]"

definition falling_windows :: "(nat \<times> nat) list list" where
  "falling_windows = [[(r + 3, c), (r + 2, c + 1), (r + 1, c + 2), (r, c + 3)]. r \<leftarrow> [0..<3], c \<leftarrow> [0..<4]]"

definition bottom_windows :: "(nat \<times> nat) list list" where
  "bottom_windows = [[(0, c), (0, c + 1), (0, c + 2), (0, c + 3)]. c \<leftarrow> [0..<4]]"

definition cells :: "grid \<Rightarrow> (nat \<times> nat) list \<Rightarrow> int list" where
  "cells b w = map (\<lambda>(r, c). b ! r ! c) w"

definition window_delta :: "int list \<Rightarrow> int \<Rightarrow> int" where
  "window_delta w p =
     (let own = count_list w p; opp = count_list w (other_player p); free = count_list w EMPTY
      in (if own = 4 then 100 else 0)
       + (if own = 3 \<and> free = 1 then 5 else 0)
       + (if own = 2 \<and> free = 2 then 2 else 0)
       + (if opp = 3 \<and> free = 1 then - 50 else 0)
       + (if opp = 2 \<and> free = 2 then - 3 else 0))"

definition spec_score :: "grid \<Rightarrow> int \<Rightarrow> int" where
  "spec_score b p =
     6 * int (count_list (cells b [(r, 3). r \<leftarrow> [0..<6]]) p)
   + (\<Sum>w \<leftarrow> horizontal_windows @ vertical_windows @ rising_windows @ falling_windows.
        window_delta (cells b w) p)
   + (if count_list (cells b [(0, c). c \<leftarrow> [0..<7]]) (other_player p) = 2
      then \<Sum>w \<leftarrow> bottom_windows.
             (if count_list (cells b w) (other_player p) = 2 \<and> count_list (cells b w) EMPTY = 2
              then - 10 else 0)
      else 0)"

text \<open>
  Four in a row, as the specification words it: four cells of the same owner, contiguous in
  one row, one column or one diagonal, that is one of the windows filled by the player.
\<close>

definition four_in_row :: "grid \<Rightarrow> int \<Rightarrow> bool" where
  "four_in_row b p \<longleftrightarrow>
     list_ex (\<lambda>w. list_all (\<lambda>x. x = p) (cells b w))
       (horizontal_windows @ vertical_windows @ rising_windows @ falling_windows)"

section \<open>Generation order\<close>

text \<open>
  The order in which the move generator is specified to visit the columns: by distance from
  the centre column 3, the lower index first at equal distance.
\<close>

definition center_order :: "nat list" where
  "center_order = [3, 2, 4, 1, 5, 0, 6]"

definition closer_to_center :: "nat \<Rightarrow> nat \<Rightarrow> bool" where
  "closer_to_center c c' \<longleftrightarrow>
     \<bar>int c - 3\<bar> < \<bar>int c' - 3\<bar> \<or> (\<bar>int c - 3\<bar> = \<bar>int c' - 3\<bar> \<and> c < c')"

section \<open>Boards without a move, and a position with equal scores\<close>

text \<open>
  \<open>drawn_board\<close> and \<open>won_full_board\<close> are full. \<open>opening_board\<close> is the position after the
  centre opening of HUMAN, and \<open>center_reply\<close> the state after COMPUTER answers in the centre.
\<close>

definition no_legal_column :: "grid \<Rightarrow> bool" where
  "no_legal_column b \<longleftrightarrow> list_all (\<lambda>col. \<not> legal_column b col) [0..<COLUMN_COUNT]"

definition drawn_board :: grid where
  "drawn_board =
     [[1, 1, 2, 2, 1, 1, 2],
      [2, 2, 1, 1, 2, 2, 1],
      [1, 1, 2, 2, 1, 1, 2],
      [2, 2, 1, 1, 2, 2, 1],
      [1, 1, 2, 2, 1, 1, 2],
      [2, 2, 1, 1, 2, 2, 1]]"

definition won_full_board :: grid where
  "won_full_board =
     [[1, 1, 2, 2, 1, 1, 2],
      [2, 2, 1, 1, 2, 2, 1],
      [1, 1, 2, 2, 1, 1, 2],
      [2, 2, 1, 1, 2, 2, 1],
      [1, 1, 2, 2, 1, 1, 2],
      [2, 2, 2, 2, 1, 1, 1]]"

definition opening_board :: grid where
  "opening_board =
     [[0, 0, 0, 1, 0, 0, 0],
      [0, 0, 0, 0, 0, 0, 0],
      [0, 0, 0, 0, 0, 0, 0],
      [0, 0, 0, 0, 0, 0, 0],
      [0, 0, 0, 0, 0, 0, 0],
      [0, 0, 0, 0, 0, 0, 0]]"

definition center_reply :: state where
  "center_reply =
     \<lparr>board =
        [[0, 0, 0, 1, 0, 0, 0],
         [0, 0, 0, 2, 0, 0, 0],
         [0, 0, 0, 0, 0, 0, 0],
         [0, 0, 0, 0, 0, 0, 0],
         [0, 0, 0, 0, 0, 0, 0],
         [0, 0, 0, 0, 0, 0, 0]],
      heuristic_value = 0, whose_turn = 1, empty_cells = 40\<rparr>"

section \<open>A position with HUMAN to move\<close>

text \<open>
  Three pieces of each player are on the board, HUMAN has three in a row on the bottom row
  and is to move.
\<close>

definition human_threat_state :: state where
  "human_threat_state =
     \<lparr>board =
        [[1, 1, 1, 0, 2, 2, 0],
         [0, 0, 0, 0, 2, 0, 0],
         [0, 0, 0, 0, 0, 0, 0],
         [0, 0, 0, 0, 0, 0, 0],
         [0, 0, 0, 0, 0, 0, 0],
         [0, 0, 0, 0, 0, 0, 0]],
      heuristic_value = - 30, whose_turn = 1, empty_cells = 36\<rparr>"

section \<open>Valid boards and search states\<close>

text \<open>
  A board is valid when it has the shape 6x7 and every piece rests on the bottom row or on
  another piece, as on every board that legal moves produce. A search state is valid when
  its board is, its count is the number of empty cells of the board, and it is the turn of
  one of the two players.
\<close>

definition empty_count :: "grid \<Rightarrow> nat" where
  "empty_count b = sum_list (map (\<lambda>row. count_list row EMPTY) b)"

definition gravity :: "grid \<Rightarrow> bool" where
  "gravity b \<longleftrightarrow>
     list_all (\<lambda>c. list_all (\<lambda>r. b ! r ! c = EMPTY \<longrightarrow> b ! (r + 1) ! c = EMPTY)
                 [0..<ROW_COUNT - 1]) [0..<COLUMN_COUNT]"

definition valid_board :: "grid \<Rightarrow> bool" where
  "valid_board b \<longleftrightarrow> shape_ok b \<and> gravity b"

definition has_legal_column :: "grid \<Rightarrow> bool" where
  "has_legal_column b \<longleftrightarrow> list_ex (legal_column b) [0..<COLUMN_COUNT]"

definition state_ok :: "state \<Rightarrow> bool" where
  "state_ok s \<longleftrightarrow>
     valid_board (board s) \<and> empty_cells s = int (empty_count (board s))
     \<and> (whose_turn s = HUMAN \<or> whose_turn s = COMPUTER)"

definition is_fin :: "pyval \<Rightarrow> bool" where
  "is_fin v \<longleftrightarrow> (case v of Fin x \<Rightarrow> True | _ \<Rightarrow> False)"

section \<open>Backed-up values and the scan that keeps the first best\<close>

text \<open>
  The backed-up values as the loop of \<open>abmax\<close> meets them: for each child visited, the value
  returned for it by \<open>abmin\<close> under the bounds of that moment, with the child's column, up
  to and including the child at which the loop returns early.
\<close>

fun abmax_trace :: "child list \<Rightarrow> nat \<Rightarrow> pyval \<Rightarrow> pyval \<Rightarrow> pyval \<Rightarrow> (pyval \<times> nat) list" where
  "abmax_trace [] d1 a b v = []"
| "abmax_trace ((state, col_played) # rest) d1 a b v =
     (case abmin state d1 a b of
        Inl e \<Rightarrow> []
      | Inr tmp \<Rightarrow>
          let v' = (if fst tmp > v then fst tmp else v)
          in (fst tmp, col_played) #
             (if v' \<ge> b then [] else abmax_trace rest d1 (if v' > a then v' else a) b v'))"

fun abmin_trace :: "child list \<Rightarrow> nat \<Rightarrow> pyval \<Rightarrow> pyval \<Rightarrow> pyval \<Rightarrow> (pyval \<times> nat) list" where
  "abmin_trace [] d1 a b v = []"
| "abmin_trace ((state, col_played) # rest) d1 a b v =
     (case abmax state d1 a b of
        Inl e \<Rightarrow> []
      | Inr tmp \<Rightarrow>
          let v' = (if fst tmp < v then fst tmp else v)
          in (fst tmp, col_played) #
             (if v' \<le> a then [] else abmin_trace rest d1 a (if v' < b then v' else b) v'))"

text \<open>Keeping the first of the best: a scan that replaces the record only on strict improvement.\<close>

fun first_max :: "(pyval \<times> nat) list \<Rightarrow> pyval \<Rightarrow> nat \<Rightarrow> pyval \<times> nat" where
  "first_max [] v best = (v, best)"
| "first_max ((x, c) # tr) v best = (if x > v then first_max tr x c else first_max tr v best)"

fun first_min :: "(pyval \<times> nat) list \<Rightarrow> pyval \<Rightarrow> nat \<Rightarrow> pyval \<times> nat" where
  "first_min [] v best = (v, best)"
| "first_min ((x, c) # tr) v best = (if x < v then first_min tr x c else first_min tr v best)"

section \<open>Positions for the search\<close>

text \<open>
  \<open>center_full_board\<close> is symmetric with a full centre column, so the moves of mirrored
  columns get equal scores. \<open>last_cell_board\<close> has one empty cell. On
  \<open>double_threat_board\<close>, row 0 at the bottom, COMPUTER to move completes column 6 at once,
  or plays column 3 first and threatens row 3 as well.
\<close>

definition center_full_board :: grid where
  "center_full_board =
     [[0, 0, 0, 1, 0, 0, 0],
      [0, 0, 0, 2, 0, 0, 0],
      [0, 0, 0, 1, 0, 0, 0],
      [0, 0, 0, 2, 0, 0, 0],
      [0, 0, 0, 1, 0, 0, 0],
      [0, 0, 0, 2, 0, 0, 0]]"

definition last_cell_board :: grid where
  "last_cell_board =
     [[1, 1, 2, 2, 1, 1, 2],
      [2, 2, 1, 1, 2, 2, 1],
      [1, 1, 2, 2, 1, 1, 2],
      [2, 2, 1, 1, 2, 2, 1],
      [1, 1, 2, 2, 1, 1, 2],
      [2, 2, 1, 1, 2, 0, 1]]"

text \<open>
  A column wins now when it is legal and the move of COMPUTER in it, from the root state of
  the board, leaves COMPUTER with four in a row.
\<close>

definition wins_now :: "grid \<Rightarrow> nat \<Rightarrow> bool" where
  "wins_now b col \<longleftrightarrow>
     legal_column b col \<and>
     (case make_move (create_state b) col of
        Inl e \<Rightarrow> False
      | Inr s \<Rightarrow> check_win (board s) COMPUTER)"

definition double_threat_board :: grid where
  "double_threat_board =
     [[1, 2, 2, 2, 1, 2, 1],
      [1, 2, 2, 1, 1, 2, 1],
      [2, 1, 1, 0, 2, 1, 2],
      [2, 2, 2, 0, 1, 1, 2],
      [1, 1, 1, 0, 1, 1, 2],
      [2, 1, 1, 0, 2, 2, 0]]"

text \<open>A grid of the right shape that no play produces: pieces in the top row over empty cells.\<close>

definition floating_board :: grid where
  "floating_board =
     [[0, 0, 0, 1, 0, 0, 0],
      [0, 0, 0, 2, 0, 0, 0],
      [0, 0, 0, 1, 0, 0, 0],
      [0, 0, 0, 2, 0, 0, 0],
      [0, 0, 0, 0, 0, 0, 0],
      [1, 2, 1, 0, 2, 1, 2]]"

section \<open>The engine over a store of arrays\<close>

text \<open>
  The functions above treat a board as a value. In the Python, a board is a numpy array, an
  object that \<^verbatim>\<open>make_move\<close> mutates in place, and \<^verbatim>\<open>create_state\<close> puts the caller's own
  array into the root state. This second model keeps the arrays in a store: an address is an
  index into the list of all arrays, \<^verbatim>\<open>copy.deepcopy\<close> appends a new array, and
  \<^verbatim>\<open>board[row][col] = ...\<close> overwrites the array at the address the state holds. The state
  lists themselves are created inside the engine and never reach the caller; their fields
  are passed along as before.
\<close>

type_synonym store = "grid list"

record sstate =
  board_ref :: nat
  s_value :: rat
  s_turn :: int
  s_empty :: int

definition view :: "store \<Rightarrow> sstate \<Rightarrow> state" where
  "view h s = \<lparr>board = h ! board_ref s, heuristic_value = s_value s,
               whose_turn = s_turn s, empty_cells = s_empty s\<rparr>"

definition create_state_st :: "store \<Rightarrow> nat \<Rightarrow> sstate" where
  "create_state_st h r =
     \<lparr>board_ref = r, s_value = PLACEHOLDER, s_turn = COMPUTER,
      s_empty = int (sum_list (map (\<lambda>row. count_list row 0) (h ! r)))\<rparr>"

definition deepcopy_st :: "store \<Rightarrow> sstate \<Rightarrow> store \<times> sstate" where
  "deepcopy_st h s = (h @ [h ! board_ref s], s\<lparr>board_ref := length h\<rparr>)"

definition is_finished_st :: "sstate \<Rightarrow> bool" where
  "is_finished_st s \<longleftrightarrow> s_value s \<in> set [LOSS, VIC, TIE] \<or> s_empty s = 0"

definition make_move_st :: "store \<Rightarrow> sstate \<Rightarrow> nat \<Rightarrow> error + (store \<times> sstate)" where
  "make_move_st h s col =
     (let b = h ! board_ref s in
      case get_next_row b col of
        Inl e \<Rightarrow> Inl e
      | Inr row \<Rightarrow>
          if row = - 1 then Inr (h, s)
          else
            let b' = b[nat row := (b ! nat row)[col := s_turn s]];
                h' = h[board_ref s := b'];
                n_empty = s_empty s - 1;
                turn = (if s_turn s = HUMAN then COMPUTER else HUMAN)
            in Inr (h', \<lparr>board_ref = board_ref s, s_value = classify b' n_empty,
                         s_turn = turn, s_empty = n_empty\<rparr>))"

type_synonym schild = "sstate \<times> nat"

fun get_next_loop_st :: "store \<Rightarrow> sstate \<Rightarrow> nat list \<Rightarrow> error + (store \<times> schild list)" where
  "get_next_loop_st h s [] = Inr (h, [])"
| "get_next_loop_st h s (col # cols) =
     (let (h1, state_copy) = deepcopy_st h s in
      case make_move_st h1 state_copy col of
        Inl e \<Rightarrow> Inl e
      | Inr (h2, moved) \<Rightarrow>
          (case get_next_loop_st h2 s cols of
             Inl e \<Rightarrow> Inl e
           | Inr (h3, next_states) \<Rightarrow> Inr (h3, (moved, col) # next_states)))"

definition get_next_st :: "store \<Rightarrow> sstate \<Rightarrow> error + (store \<times> schild list)" where
  "get_next_st h s =
     (let valid_cols = get_valid_columns (h ! board_ref s);
          center = COLUMN_COUNT div 2;
          ordered_cols = sort_key (\<lambda>x. \<bar>int x - int center\<bar>) valid_cols
      in get_next_loop_st h s ordered_cols)"

function abmax_st :: "store \<Rightarrow> sstate \<Rightarrow> nat \<Rightarrow> pyval \<Rightarrow> pyval \<Rightarrow> error + (store \<times> (pyval \<times> nat))"
  and abmax_loop_st :: "store \<Rightarrow> schild list \<Rightarrow> nat \<Rightarrow> pyval \<Rightarrow> pyval \<Rightarrow> pyval \<Rightarrow> nat
        \<Rightarrow> error + (store \<times> (pyval \<times> nat))"
  and abmin_st :: "store \<Rightarrow> sstate \<Rightarrow> nat \<Rightarrow> pyval \<Rightarrow> pyval \<Rightarrow> error + (store \<times> (pyval \<times> nat))"
  and abmin_loop_st :: "store \<Rightarrow> schild list \<Rightarrow> nat \<Rightarrow> pyval \<Rightarrow> pyval \<Rightarrow> pyval \<Rightarrow> nat
        \<Rightarrow> error + (store \<times> (pyval \<times> nat))"
where
  "abmax_st h s d a b =
     (if d = 0 \<or> is_finished_st s then Inr (h, (Fin (s_value s), 0))
      else case get_next_st h s of
             Inl e \<Rightarrow> Inl e
           | Inr (h1, next_states) \<Rightarrow> abmax_loop_st h1 next_states (d - 1) a b NegInf 0)"
| "abmax_loop_st h [] d1 a b v best_col = Inr (h, (v, best_col))"
| "abmax_loop_st h ((state, col_played) # rest) d1 a b v best_col =
     (let (h1, arg) = deepcopy_st h state in
      case abmin_st h1 arg d1 a b of
        Inl e \<Rightarrow> Inl e
      | Inr (h2, tmp) \<Rightarrow>
          let v' = (if fst tmp > v then fst tmp else v);
              best_col' = (if fst tmp > v then col_played else best_col)
          in if v' \<ge> b then Inr (h2, (v', col_played))
             else abmax_loop_st h2 rest d1 (if v' > a then v' else a) b v' best_col')"
| "abmin_st h s d a b =
     (if d = 0 \<or> is_finished_st s then Inr (h, (Fin (s_value s), 0))
      else case get_next_st h s of
             Inl e \<Rightarrow> Inl e
           | Inr (h1, next_states) \<Rightarrow> abmin_loop_st h1 next_states (d - 1) a b PosInf 0)"
| "abmin_loop_st h [] d1 a b v best_col = Inr (h, (v, best_col))"
| "abmin_loop_st h ((state, col_played) # rest) d1 a b v best_col =
     (let (h1, arg) = deepcopy_st h state in
      case abmax_st h1 arg d1 a b of
        Inl e \<Rightarrow> Inl e
      | Inr (h2, tmp) \<Rightarrow>
          let v' = (if fst tmp < v then fst tmp else v);
              best_col' = (if fst tmp < v then col_played else best_col)
          in if v' \<le> a then Inr (h2, (v', col_played))
             else abmin_loop_st h2 rest d1 a (if v' < b then v' else b) v' best_col')"
  by pat_completeness auto

termination
  by (relation "inv_image (less_than <*lex*> less_than)
        (\<lambda>x. case x of
           Inl (Inl (h, s, d, a, b)) \<Rightarrow> (2 * d, 0)
         | Inl (Inr (h, cs, d1, a, b, v, c)) \<Rightarrow> (2 * d1 + 1, length cs)
         | Inr (Inl (h, s, d, a, b)) \<Rightarrow> (2 * d, 0)
         | Inr (Inr (h, cs, d1, a, b, v, c)) \<Rightarrow> (2 * d1 + 1, length cs))")
     auto

definition go_st :: "store \<Rightarrow> nat \<Rightarrow> error + (store \<times> nat)" where
  "go_st h r =
     (let state = create_state_st h r in
      case abmax_st h state DEPTH (Fin (LOSS - 1)) (Fin (VIC + 1)) of
        Inl e \<Rightarrow> Inl e
      | Inr (h', result) \<Rightarrow> Inr (h', snd result))"

text \<open>
  A later store extends an earlier one when every array of the earlier store is still there,
  unchanged, at its address.
\<close>

definition extends :: "store \<Rightarrow> store \<Rightarrow> bool" where
  "extends h h' \<longleftrightarrow> length h \<le> length h' \<and> take (length h) h' = h"

text \<open>
  A run over the store simulates a run over values from the store \<open>h\<close> when it fails with
  the same error, or returns the same result together with a store that extends \<open>h\<close>.
\<close>

definition sim :: "store \<Rightarrow> error + (store \<times> 'a) \<Rightarrow> error + 'a \<Rightarrow> bool" where
  "sim h x y \<longleftrightarrow>
     (case y of Inl e \<Rightarrow> x = Inl e | Inr r \<Rightarrow> (\<exists>h'. x = Inr (h', r) \<and> extends h h'))"

definition view_children :: "store \<Rightarrow> schild list \<Rightarrow> child list" where
  "view_children h cs = map (\<lambda>(t, c). (view h t, c)) cs"

definition refs_ok :: "store \<Rightarrow> schild list \<Rightarrow> bool" where
  "refs_ok h cs \<longleftrightarrow> list_all (\<lambda>(t, c). board_ref t < length h) cs"

definition two_board_store :: store where
  "two_board_store = [sample_board, last_cell_board]"

section \<open>Verified properties\<close>

subsection \<open>Applying a move\<close>

lemma first_empty_row_none:
  "first_empty_row b col rows = - 1 \<longleftrightarrow> (\<forall>r \<in> set rows. b ! r ! col \<noteq> EMPTY)"
  by (induction rows) auto

lemma first_empty_row_upt:
  "i \<le> row \<Longrightarrow> row < n \<Longrightarrow> b ! row ! col = EMPTY \<Longrightarrow> \<forall>r. i \<le> r \<and> r < row \<longrightarrow> b ! r ! col \<noteq> EMPTY
   \<Longrightarrow> first_empty_row b col [i..<n] = int row"
proof (induction "row - i" arbitrary: i)
  case 0
  then have "i = row" by simp
  with 0 show ?case by (simp add: upt_conv_Cons)
next
  case (Suc k)
  then have lt: "i < row" and ne: "b ! i ! col \<noteq> EMPTY" by auto
  from Suc have "first_empty_row b col [Suc i..<n] = int row"
    by (intro Suc.hyps(1)) auto
  with lt ne Suc.prems show ?case by (simp add: upt_conv_Cons)
qed

lemma lowest_empty_ex:
  assumes "b ! k ! col = EMPTY"
  shows "\<exists>row \<le> k. b ! row ! col = EMPTY \<and> (\<forall>r < row. b ! r ! col \<noteq> EMPTY)"
proof -
  let ?P = "\<lambda>r. b ! r ! col = EMPTY"
  have "?P (LEAST r. ?P r)" using assms by (rule LeastI)
  moreover have "(LEAST r. ?P r) \<le> k" using assms by (rule Least_le)
  moreover have "\<forall>r < (LEAST r. ?P r). \<not> ?P r" using not_less_Least by blast
  ultimately show ?thesis by blast
qed

lemma make_move_full:
  assumes "col < COLUMN_COUNT" and "\<forall>r < ROW_COUNT. board s ! r ! col \<noteq> EMPTY"
  shows "make_move s col = Inr s"
proof -
  have "first_empty_row (board s) col [0..<ROW_COUNT] = - 1"
    using assms(2) by (simp add: first_empty_row_none)
  with assms(1) show ?thesis by (simp add: make_move_def get_next_row_def)
qed

lemma make_move_legal:
  assumes "col < COLUMN_COUNT" and "row < ROW_COUNT" and "board s ! row ! col = EMPTY"
    and "\<forall>r < row. board s ! r ! col \<noteq> EMPTY"
  shows "make_move s col =
     Inr \<lparr>board = (board s)[row := (board s ! row)[col := whose_turn s]],
          heuristic_value = classify ((board s)[row := (board s ! row)[col := whose_turn s]]) (empty_cells s - 1),
          whose_turn = (if whose_turn s = HUMAN then COMPUTER else HUMAN),
          empty_cells = empty_cells s - 1\<rparr>"
proof -
  have "first_empty_row (board s) col [0..<ROW_COUNT] = int row"
    using assms by (intro first_empty_row_upt) auto
  with assms(1) show ?thesis by (simp add: make_move_def get_next_row_def Let_def)
qed


lemma legal_lowest_empty:
  assumes "legal_column b col"
  shows "\<exists>row. lowest_empty b col row"
proof -
  from assms have "b ! (ROW_COUNT - 1) ! col = EMPTY" by (simp add: legal_column_def)
  from lowest_empty_ex[OF this] obtain row where
    "row \<le> ROW_COUNT - 1" "b ! row ! col = EMPTY" "\<forall>r < row. b ! r ! col \<noteq> EMPTY" by blast
  then have "lowest_empty b col row"
    by (simp add: lowest_empty_def list_all_iff ROW_COUNT_def)
  then show ?thesis ..
qed

lemma make_move_lowest:
  assumes "col < COLUMN_COUNT" and "lowest_empty (board s) col row"
  shows "make_move s col =
     Inr \<lparr>board = (board s)[row := (board s ! row)[col := whose_turn s]],
          heuristic_value = classify ((board s)[row := (board s ! row)[col := whose_turn s]]) (empty_cells s - 1),
          whose_turn = (if whose_turn s = HUMAN then COMPUTER else HUMAN),
          empty_cells = empty_cells s - 1\<rparr>"
  using assms by (intro make_move_legal) (auto simp: lowest_empty_def list_all_iff)

lemma nth2_update:
  "b[row := (b ! row)[col := x]] ! r ! c =
     (if r = row \<and> c = col \<and> row < length b \<and> col < length (b ! row) then x else b ! r ! c)"
proof (cases "row < length b")
  case True
  then show ?thesis by (cases "col < length (b ! row)") (auto simp: nth_list_update list_update_beyond)
next
  case False
  then show ?thesis by (simp add: list_update_beyond)
qed

lemma length_nth_update2: "length (b[row := (b ! row)[col := x]] ! r) = length (b ! r)"
  by (cases "row < length b") (auto simp: nth_list_update list_update_beyond)

lemma shape_ok_nth: "shape_ok b \<Longrightarrow> r < ROW_COUNT \<Longrightarrow> length (b ! r) = COLUMN_COUNT"
  by (simp add: shape_ok_def list_all_length)

lemma shape_ok_length: "shape_ok b \<Longrightarrow> length b = ROW_COUNT"
  by (simp add: shape_ok_def)

lemma shape_ok_update:
  assumes "shape_ok b" shows "shape_ok (b[row := (b ! row)[col := x]])"
  using assms by (auto simp: shape_ok_def list_all_length length_nth_update2)

text \<open>
  Claim C10. When \<open>make_move\<close> is called with a column of a 6x7 board that has no empty cell,
  it returns normally, without an error, and the state (grid, heuristic value, turn and
  empty-cell count) is exactly the state it was given.
\<close>

theorem make_move_full_column_noop:
  assumes "shape_ok (board s)" and "column_full (board s) col"
  shows "make_move s col = Inr s"
  using assms(2) by (intro make_move_full) (auto simp: column_full_def list_all_iff)

theorem make_move_full_column_noop_witness:
  "make_move (create_state full_column_board) 0 = Inr (create_state full_column_board)"
proof -
  have h1: "shape_ok (board (create_state full_column_board))" by code_simp
  have h2: "column_full (board (create_state full_column_board)) 0" by code_simp
  show ?thesis using h1 h2 by (rule make_move_full_column_noop)
qed

subsection \<open>Evaluator\<close>

lemma take4_drop:
  "c + 4 \<le> length xs \<Longrightarrow> take 4 (drop c xs) = [xs ! c, xs ! (c + 1), xs ! (c + 2), xs ! (c + 3)]"
  by (rule nth_equalityI) (auto simp: nth_Cons' less_Suc_eq numeral_eq_Suc)

lemma evaluate_window_delta:
  assumes "p = HUMAN \<or> p = COMPUTER"
  shows "evaluate_window w p = window_delta w p"
  using assms
  by (auto simp: evaluate_window_def window_delta_def other_player_def Let_def HUMAN_def COMPUTER_def)

lemma list6: "length b = 6 \<Longrightarrow> b = [b ! 0, b ! 1, b ! 2, b ! 3, b ! 4, b ! 5]"
  by (rule nth_equalityI) (auto simp: nth_Cons' less_Suc_eq numeral_eq_Suc)

lemma list7: "length r = 7 \<Longrightarrow> r = [r ! 0, r ! 1, r ! 2, r ! 3, r ! 4, r ! 5, r ! 6]"
  by (rule nth_equalityI) (auto simp: nth_Cons' less_Suc_eq numeral_eq_Suc)


lemma upt_0_3: "[0..<3] = [0, 1, 2::nat]" by code_simp
lemma upt_0_4: "[0..<4] = [0, 1, 2, 3::nat]" by code_simp
lemma upt_0_6: "[0..<6] = [0, 1, 2, 3, 4, 5::nat]" by code_simp
lemma upt_0_7: "[0..<7] = [0, 1, 2, 3, 4, 5, 6::nat]" by code_simp
lemmas upt_small = upt_0_3 upt_0_4 upt_0_6 upt_0_7

lemma shape_rows:
  assumes "shape_ok b"
  shows "length b = 6" and "\<And>r. r < 6 \<Longrightarrow> length (b ! r) = 7"
  using assms by (simp_all add: shape_ok_def list_all_length ROW_COUNT_def COLUMN_COUNT_def upt_small)

lemma center_cells:
  assumes "shape_ok b"
  shows "map (\<lambda>row. row ! (COLUMN_COUNT div 2)) b = cells b [(r, 3). r \<leftarrow> [0..<6]]"
proof -
  have "length b = 6" using assms by (rule shape_rows)
  then have "map (\<lambda>row. row ! (COLUMN_COUNT div 2)) b
           = map (\<lambda>row. row ! (COLUMN_COUNT div 2)) [b ! 0, b ! 1, b ! 2, b ! 3, b ! 4, b ! 5]"
    using list6 by metis
  then show ?thesis by (simp add: cells_def COLUMN_COUNT_def upt_small)
qed

lemma bottom_cells:
  assumes "shape_ok b"
  shows "b ! 0 = cells b [(0, c). c \<leftarrow> [0..<7]]"
proof -
  have "length (b ! 0) = 7" using assms by (simp add: shape_rows)
  then have "b ! 0 = [b ! 0 ! 0, b ! 0 ! 1, b ! 0 ! 2, b ! 0 ! 3, b ! 0 ! 4, b ! 0 ! 5, b ! 0 ! 6]"
    by (rule list7)
  then show ?thesis by (simp add: cells_def upt_small)
qed

lemma sum_list_windows:
  "(\<Sum>w \<leftarrow> concat (map (\<lambda>r. map (\<lambda>c. W r c) cs) rs). g w) = (\<Sum>r\<leftarrow>rs. \<Sum>c\<leftarrow>cs. g (W r c))"
  by (induction rs) (simp_all add: o_def)

lemma sum_list_cong:
  "(\<And>x. x \<in> set xs \<Longrightarrow> f x = g x) \<Longrightarrow> sum_list (map f xs) = sum_list (map g xs)"
  by (induction xs) auto

lemma horizontal_sum:
  assumes "shape_ok b"
  shows "(\<Sum>r\<leftarrow>[0..<ROW_COUNT]. \<Sum>c\<leftarrow>[0..<COLUMN_COUNT - 3]. f (take 4 (drop c (b ! r))))
       = (\<Sum>w \<leftarrow> horizontal_windows. f (cells b w))"
proof -
  have pt: "take 4 (drop c (b ! r)) = cells b [(r, c), (r, c + 1), (r, c + 2), (r, c + 3)]"
    if "r < 6" "c < 4" for r c
    using that shape_rows(2)[OF assms, of r] by (simp add: take4_drop cells_def)
  have "(\<Sum>r\<leftarrow>[0..<ROW_COUNT]. \<Sum>c\<leftarrow>[0..<COLUMN_COUNT - 3]. f (take 4 (drop c (b ! r))))
      = (\<Sum>r\<leftarrow>[0..<6]. \<Sum>c\<leftarrow>[0..<4]. f (cells b [(r, c), (r, c + 1), (r, c + 2), (r, c + 3)]))"
    unfolding ROW_COUNT_def COLUMN_COUNT_def
    by (auto intro!: sum_list_cong simp: pt)
  also have "\<dots> = (\<Sum>w \<leftarrow> horizontal_windows. f (cells b w))"
    by (simp add: horizontal_windows_def sum_list_windows)
  finally show ?thesis .
qed

lemma vertical_sum:
  assumes "shape_ok b"
  shows "(\<Sum>c\<leftarrow>[0..<COLUMN_COUNT]. \<Sum>r\<leftarrow>[0..<ROW_COUNT - 3].
            f (map (\<lambda>row. row ! c) (take 4 (drop r b))))
       = (\<Sum>w \<leftarrow> vertical_windows. f (cells b w))"
proof -
  have pt: "map (\<lambda>row. row ! c) (take 4 (drop r b)) = cells b [(r, c), (r + 1, c), (r + 2, c), (r + 3, c)]"
    if "r < 3" for r c
    using that shape_rows(1)[OF assms] by (simp add: take4_drop cells_def)
  have "(\<Sum>c\<leftarrow>[0..<COLUMN_COUNT]. \<Sum>r\<leftarrow>[0..<ROW_COUNT - 3].
            f (map (\<lambda>row. row ! c) (take 4 (drop r b))))
      = (\<Sum>c\<leftarrow>[0..<7]. \<Sum>r\<leftarrow>[0..<3]. f (cells b [(r, c), (r + 1, c), (r + 2, c), (r + 3, c)]))"
    unfolding ROW_COUNT_def COLUMN_COUNT_def
    by (auto intro!: sum_list_cong simp: pt)
  also have "\<dots> = (\<Sum>w \<leftarrow> vertical_windows. f (cells b w))"
    by (simp add: vertical_windows_def sum_list_windows)
  finally show ?thesis .
qed

lemma rising_sum:
  "(\<Sum>r\<leftarrow>[0..<ROW_COUNT - 3]. \<Sum>c\<leftarrow>[0..<COLUMN_COUNT - 3].
            f (map (\<lambda>i. b ! (r + i) ! (c + i)) [0..<4]))
       = (\<Sum>w \<leftarrow> rising_windows. f (cells b w))"
proof -
  have pt: "map (\<lambda>i. b ! (r + i) ! (c + i)) [0..<4]
          = cells b [(r, c), (r + 1, c + 1), (r + 2, c + 2), (r + 3, c + 3)]" for r c
    by (simp add: upt_0_4 cells_def)
  show ?thesis
    unfolding pt by (simp add: rising_windows_def sum_list_windows ROW_COUNT_def COLUMN_COUNT_def)
qed

lemma falling_sum:
  "(\<Sum>r\<leftarrow>[0..<ROW_COUNT - 3]. \<Sum>c\<leftarrow>[0..<COLUMN_COUNT - 3].
            f (map (\<lambda>i. b ! (r + 3 - i) ! (c + i)) [0..<4]))
       = (\<Sum>w \<leftarrow> falling_windows. f (cells b w))"
proof -
  have pt: "map (\<lambda>i. b ! (r + 3 - i) ! (c + i)) [0..<4]
          = cells b [(r + 3, c), (r + 2, c + 1), (r + 1, c + 2), (r, c + 3)]" for r c
    by (simp add: upt_0_4 cells_def numeral_eq_Suc)
  show ?thesis
    unfolding pt by (simp add: falling_windows_def sum_list_windows ROW_COUNT_def COLUMN_COUNT_def)
qed

lemma bottom_sum:
  assumes "shape_ok b"
  shows "(\<Sum>c\<leftarrow>[0..<COLUMN_COUNT - 3]. f (take 4 (drop c (b ! 0))))
       = (\<Sum>w \<leftarrow> bottom_windows. f (cells b w))"
proof -
  have pt: "take 4 (drop c (b ! 0)) = cells b [(0, c), (0, c + 1), (0, c + 2), (0, c + 3)]"
    if "c < 4" for c
    using that shape_rows(2)[OF assms, of 0] by (simp add: take4_drop cells_def)
  have "(\<Sum>c\<leftarrow>[0..<COLUMN_COUNT - 3]. f (take 4 (drop c (b ! 0))))
      = (\<Sum>c\<leftarrow>[0..<4]. f (cells b [(0, c), (0, c + 1), (0, c + 2), (0, c + 3)]))"
    unfolding COLUMN_COUNT_def
    by (auto intro!: sum_list_cong simp: pt)
  also have "\<dots> = (\<Sum>w \<leftarrow> bottom_windows. f (cells b w))"
    by (simp add: bottom_windows_def o_def)
  finally show ?thesis .
qed

lemma horizontal_windows_set:
  "set horizontal_windows = {[(r, c), (r, c + 1), (r, c + 2), (r, c + 3)] | r c. r < 6 \<and> c + 3 < 7}"
  by (auto simp: horizontal_windows_def)

lemma vertical_windows_set:
  "set vertical_windows = {[(r, c), (r + 1, c), (r + 2, c), (r + 3, c)] | r c. r + 3 < 6 \<and> c < 7}"
  by (auto simp: vertical_windows_def)

lemma rising_windows_set:
  "set rising_windows =
     {[(r, c), (r + 1, c + 1), (r + 2, c + 2), (r + 3, c + 3)] | r c. r + 3 < 6 \<and> c + 3 < 7}"
  by (auto simp: rising_windows_def)

lemma falling_windows_set:
  "set falling_windows =
     {[(r + 3, c), (r + 2, c + 1), (r + 1, c + 2), (r, c + 3)] | r c. r + 3 < 6 \<and> c + 3 < 7}"
  by (auto simp: falling_windows_def)

lemma windows_distinct:
  "distinct (horizontal_windows @ vertical_windows @ rising_windows @ falling_windows)"
  by code_simp

lemma score_position_eq_spec:
  assumes "shape_ok b" and "p = HUMAN \<or> p = COMPUTER"
  shows "score_position b p = spec_score b p"
proof -
  have opp: "(if p = COMPUTER then HUMAN else COMPUTER) = other_player p"
    using assms(2) by (auto simp: other_player_def HUMAN_def COMPUTER_def)
  have ew: "evaluate_window w p = window_delta w p" for w
    using assms(2) by (rule evaluate_window_delta)
  have pen: "bottom_penalty b (other_player p) =
      (if count_list (cells b [(0, c). c \<leftarrow> [0..<7]]) (other_player p) = 2
       then \<Sum>w \<leftarrow> bottom_windows.
             (if count_list (cells b w) (other_player p) = 2 \<and> count_list (cells b w) EMPTY = 2
              then - 10 else 0)
       else 0)"
  proof -
    have 1: "(\<Sum>c\<leftarrow>[0..<COLUMN_COUNT - 3].
               (if count_list (take 4 (drop c (b ! 0))) (other_player p) = 2
                   \<and> count_list (take 4 (drop c (b ! 0))) EMPTY = 2 then - 10 else (0::int)))
           = (\<Sum>w \<leftarrow> bottom_windows.
               (if count_list (cells b w) (other_player p) = 2 \<and> count_list (cells b w) EMPTY = 2
                then - 10 else 0))"
      by (rule bottom_sum[OF assms(1)])
    have 2: "count_list (b ! 0) x = count_list (cells b [(0, c). c \<leftarrow> [0..<7]]) x" for x
      using bottom_cells[OF assms(1)] by simp
    show ?thesis unfolding bottom_penalty_def Let_def 1 2 ..
  qed
  let ?f = "\<lambda>w. window_delta w p"
  show ?thesis
    unfolding score_position_def spec_score_def Let_def opp ew pen center_cells[OF assms(1)]
    using horizontal_sum[OF assms(1), of ?f] vertical_sum[OF assms(1), of ?f]
      rising_sum[of ?f b] falling_sum[of ?f b]
    by simp
qed

text \<open>
  Claim C5. On every 6x7 grid and for each of the two players, \<open>score_position\<close> is six
  times the player's pieces in column 3, plus over every horizontal, vertical and diagonal
  window of four cells +100 for four own pieces, +5 for three own and one empty, +2 for two
  own and two empty, -50 for three of the opponent and one empty, -3 for two of the opponent
  and two empty, plus, exactly when the opponent has exactly two pieces on the bottom row,
  -10 for each bottom-row window with exactly two opponent pieces and two empties.
\<close>

theorem score_position_spec:
  assumes "shape_ok b" and "p = HUMAN \<or> p = COMPUTER"
  shows "score_position b p = spec_score b p"
  using assms by (rule score_position_eq_spec)

theorem score_position_spec_witness:
  "score_position sample_board COMPUTER = - 12 \<and> spec_score sample_board COMPUTER = - 12"
proof -
  have h: "shape_ok sample_board" by code_simp
  have v: "spec_score sample_board COMPUTER = - 12" by code_simp
  from score_position_spec[OF h, of COMPUTER] v show ?thesis by simp
qed

lemma list_ex_windows:
  "list_ex P (concat (map (\<lambda>r. map (\<lambda>c. W r c) cs) rs)) \<longleftrightarrow> (\<exists>r \<in> set rs. \<exists>c \<in> set cs. P (W r c))"
  by (auto simp: list_ex_iff)

lemma check_win_horizontal:
  "list_ex (\<lambda>c. list_ex (\<lambda>r.
        b ! r ! c = p \<and> b ! r ! (c + 1) = p \<and> b ! r ! (c + 2) = p \<and> b ! r ! (c + 3) = p)
        [0..<ROW_COUNT]) [0..<COLUMN_COUNT - 3]
   \<longleftrightarrow> list_ex (\<lambda>w. list_all (\<lambda>x. x = p) (cells b w)) horizontal_windows"
  unfolding horizontal_windows_def list_ex_windows
  by (auto simp: list_ex_iff cells_def ROW_COUNT_def COLUMN_COUNT_def)

lemma check_win_vertical:
  "list_ex (\<lambda>c. list_ex (\<lambda>r.
        b ! r ! c = p \<and> b ! (r + 1) ! c = p \<and> b ! (r + 2) ! c = p \<and> b ! (r + 3) ! c = p)
        [0..<ROW_COUNT - 3]) [0..<COLUMN_COUNT]
   \<longleftrightarrow> list_ex (\<lambda>w. list_all (\<lambda>x. x = p) (cells b w)) vertical_windows"
  unfolding vertical_windows_def list_ex_windows
  by (auto simp: list_ex_iff cells_def ROW_COUNT_def COLUMN_COUNT_def)

lemma check_win_rising:
  "list_ex (\<lambda>c. list_ex (\<lambda>r.
        b ! r ! c = p \<and> b ! (r + 1) ! (c + 1) = p \<and> b ! (r + 2) ! (c + 2) = p
        \<and> b ! (r + 3) ! (c + 3) = p)
        [0..<ROW_COUNT - 3]) [0..<COLUMN_COUNT - 3]
   \<longleftrightarrow> list_ex (\<lambda>w. list_all (\<lambda>x. x = p) (cells b w)) rising_windows"
  unfolding rising_windows_def list_ex_windows
  by (auto simp: list_ex_iff cells_def ROW_COUNT_def COLUMN_COUNT_def)

lemma check_win_falling:
  "list_ex (\<lambda>c. list_ex (\<lambda>r.
        b ! r ! c = p \<and> b ! (r - 1) ! (c + 1) = p \<and> b ! (r - 2) ! (c + 2) = p
        \<and> b ! (r - 3) ! (c + 3) = p)
        [3..<ROW_COUNT]) [0..<COLUMN_COUNT - 3]
   \<longleftrightarrow> list_ex (\<lambda>w. list_all (\<lambda>x. x = p) (cells b w)) falling_windows"
  (is "?L \<longleftrightarrow> ?R")
proof -
  have L: "?L \<longleftrightarrow> (\<exists>c r. c < 4 \<and> 3 \<le> r \<and> r < 6 \<and> b ! r ! c = p \<and> b ! (r - 1) ! (c + 1) = p
              \<and> b ! (r - 2) ! (c + 2) = p \<and> b ! (r - 3) ! (c + 3) = p)"
    by (auto simp add: list_ex_iff ROW_COUNT_def COLUMN_COUNT_def Bex_def simp del: upt_rec_numeral)
  have R: "?R \<longleftrightarrow> (\<exists>c r. c < 4 \<and> r < 3 \<and> b ! (r + 3) ! c = p \<and> b ! (r + 2) ! (c + 1) = p
              \<and> b ! (r + 1) ! (c + 2) = p \<and> b ! r ! (c + 3) = p)"
    unfolding falling_windows_def list_ex_windows
    by (auto simp add: cells_def Bex_def simp del: upt_rec_numeral)
  show ?thesis unfolding L R
  proof (intro iffI; elim exE conjE)
    fix c r assume c: "c < (4::nat)" and r: "3 \<le> r" "r < (6::nat)"
      and w: "b ! r ! c = p" "b ! (r - 1) ! (c + 1) = p" "b ! (r - 2) ! (c + 2) = p"
        "b ! (r - 3) ! (c + 3) = p"
    from r have eq: "r - 3 + 3 = r" "r - 3 + 2 = r - 1" "r - 3 + 1 = r - 2" and lt: "r - 3 < 3"
      by simp_all
    from c lt w eq show "\<exists>c r. c < 4 \<and> r < 3 \<and> b ! (r + 3) ! c = p \<and> b ! (r + 2) ! (c + 1) = p
              \<and> b ! (r + 1) ! (c + 2) = p \<and> b ! r ! (c + 3) = p"
      by (intro exI[of _ c] exI[of _ "r - 3"]) simp
  next
    fix c r assume c: "c < (4::nat)" and r: "r < (3::nat)"
      and w: "b ! (r + 3) ! c = p" "b ! (r + 2) ! (c + 1) = p" "b ! (r + 1) ! (c + 2) = p"
        "b ! r ! (c + 3) = p"
    have eq: "r + 3 - 1 = r + 2" "r + 3 - 2 = r + 1" "r + 3 - 3 = r" by simp_all
    from c r w eq show "\<exists>c r. c < 4 \<and> 3 \<le> r \<and> r < 6 \<and> b ! r ! c = p \<and> b ! (r - 1) ! (c + 1) = p
              \<and> b ! (r - 2) ! (c + 2) = p \<and> b ! (r - 3) ! (c + 3) = p"
      by (intro exI[of _ c] exI[of _ "r + 3"]) simp
  qed
qed

lemma check_win_four_in_row: "check_win b p \<longleftrightarrow> four_in_row b p"
  unfolding check_win_def four_in_row_def list_ex_append
    check_win_horizontal check_win_vertical check_win_rising check_win_falling ..

subsection \<open>Applying a move, in the specification's terms\<close>

text \<open>
  Claim C4. For a state on a 6x7 grid with one of the two players to move and a legal
  column, \<open>make_move\<close> returns normally; the piece of the player to move is written at the
  lowest empty row of the column and no other cell changes; the empty-cell count drops by
  exactly one; the turn passes to the other player; and the value is \<open>VIC\<close> if COMPUTER has
  four cells in a line on the new grid, else \<open>LOSS\<close> if HUMAN has, else \<open>TIE\<close> if the count
  reached zero, else the score of COMPUTER minus the score of HUMAN, whatever the turn, each
  score being the one the specification words.
\<close>

theorem make_move_legal_column:
  assumes "shape_ok (board s)" and "legal_column (board s) col"
    and "whose_turn s = HUMAN \<or> whose_turn s = COMPUTER"
  shows "\<exists>row s'. make_move s col = Inr s'
     \<and> lowest_empty (board s) col row
     \<and> board s' ! row ! col = whose_turn s
     \<and> (\<forall>r < ROW_COUNT. \<forall>c < COLUMN_COUNT. (r, c) \<noteq> (row, col) \<longrightarrow> board s' ! r ! c = board s ! r ! c)
     \<and> shape_ok (board s')
     \<and> empty_cells s' = empty_cells s - 1
     \<and> (whose_turn s = HUMAN \<longrightarrow> whose_turn s' = COMPUTER)
     \<and> (whose_turn s = COMPUTER \<longrightarrow> whose_turn s' = HUMAN)
     \<and> whose_turn s' = other_player (whose_turn s)
     \<and> heuristic_value s' =
         (if four_in_row (board s') COMPUTER then VIC
          else if four_in_row (board s') HUMAN then LOSS
          else if empty_cells s' = 0 then TIE
          else of_int (score_position (board s') COMPUTER - score_position (board s') HUMAN))
     \<and> score_position (board s') COMPUTER = spec_score (board s') COMPUTER
     \<and> score_position (board s') HUMAN = spec_score (board s') HUMAN"
proof -
  from assms(2) obtain row where low: "lowest_empty (board s) col row"
    using legal_lowest_empty by blast
  from assms(2) have col: "col < COLUMN_COUNT" by (simp add: legal_column_def)
  from low have row: "row < ROW_COUNT" by (simp add: lowest_empty_def)
  let ?b = "(board s)[row := (board s ! row)[col := whose_turn s]]"
  let ?s = "\<lparr>board = ?b, heuristic_value = classify ?b (empty_cells s - 1),
            whose_turn = (if whose_turn s = HUMAN then COMPUTER else HUMAN),
            empty_cells = empty_cells s - 1\<rparr>"
  have mv: "make_move s col = Inr ?s" using col low by (rule make_move_lowest)
  have len: "length (board s) = ROW_COUNT" "length (board s ! row) = COLUMN_COUNT"
    using assms(1) row by (simp_all add: shape_ok_length shape_ok_nth)
  have placed: "board ?s ! row ! col = whose_turn s" using len row col by (simp add: nth2_update)
  have frame: "\<forall>r < ROW_COUNT. \<forall>c < COLUMN_COUNT. (r, c) \<noteq> (row, col) \<longrightarrow> board ?s ! r ! c = board s ! r ! c"
    by (auto simp: nth2_update)
  have shape: "shape_ok (board ?s)" using assms(1) by (simp add: shape_ok_update)
  have cnt: "empty_cells ?s = empty_cells s - 1" by simp
  have turn1: "whose_turn s = HUMAN \<longrightarrow> whose_turn ?s = COMPUTER" by simp
  have turn2: "whose_turn s = COMPUTER \<longrightarrow> whose_turn ?s = HUMAN"
    by (simp add: HUMAN_def COMPUTER_def)
  have other: "whose_turn ?s = other_player (whose_turn s)"
    using assms(3) by (auto simp: other_player_def HUMAN_def COMPUTER_def)
  have val: "heuristic_value ?s =
         (if four_in_row (board ?s) COMPUTER then VIC
          else if four_in_row (board ?s) HUMAN then LOSS
          else if empty_cells ?s = 0 then TIE
          else of_int (score_position (board ?s) COMPUTER - score_position (board ?s) HUMAN))"
    by (simp add: classify_def check_win_four_in_row)
  have sc: "score_position (board ?s) COMPUTER = spec_score (board ?s) COMPUTER"
    using shape by (rule score_position_eq_spec) simp
  have sh: "score_position (board ?s) HUMAN = spec_score (board ?s) HUMAN"
    using shape by (rule score_position_eq_spec) simp
  show ?thesis
    apply (rule exI[of _ row], rule exI[of _ ?s])
    using mv low placed frame shape cnt turn1 turn2 other val sc sh by (intro conjI) assumption+
qed

theorem make_move_legal_column_witness:
  "(\<exists>s'. make_move (create_state double_threat_board) 6 = Inr s'
       \<and> four_in_row (board s') COMPUTER \<and> heuristic_value s' = VIC
       \<and> whose_turn s' = HUMAN \<and> empty_cells s' = 4)
   \<and> (\<exists>s'. make_move human_threat_state 3 = Inr s'
       \<and> \<not> four_in_row (board s') COMPUTER \<and> four_in_row (board s') HUMAN
       \<and> heuristic_value s' = LOSS \<and> whose_turn s' = COMPUTER \<and> empty_cells s' = 35)
   \<and> (\<exists>s'. make_move (create_state last_cell_board) 5 = Inr s'
       \<and> \<not> four_in_row (board s') COMPUTER \<and> \<not> four_in_row (board s') HUMAN
       \<and> empty_cells s' = 0 \<and> heuristic_value s' = TIE)
   \<and> (\<exists>row s'. make_move (create_state empty_board) 3 = Inr s'
       \<and> lowest_empty empty_board 3 row \<and> board s' ! row ! 3 = COMPUTER
       \<and> \<not> four_in_row (board s') COMPUTER \<and> \<not> four_in_row (board s') HUMAN
       \<and> empty_cells s' = 41 \<and> whose_turn s' = HUMAN \<and> heuristic_value s' = 6)"
proof (intro conjI)
  let ?s = "create_state double_threat_board"
  let ?B = "[[1, 2, 2, 2, 1, 2, 1], [1, 2, 2, 1, 1, 2, 1], [2, 1, 1, 0, 2, 1, 2],
             [2, 2, 2, 0, 1, 1, 2], [1, 1, 1, 0, 1, 1, 2], [2, 1, 1, 0, 2, 2, 2::int]]"
  have h1: "shape_ok (board ?s)" by code_simp
  have h2: "legal_column (board ?s) 6" by code_simp
  have h3: "whose_turn ?s = HUMAN \<or> whose_turn ?s = COMPUTER" by code_simp
  have bd: "map_sum id board (make_move ?s 6) = Inr ?B" by code_simp
  have win: "four_in_row ?B COMPUTER" by code_simp
  have e: "empty_cells ?s = 5" and t: "whose_turn ?s = COMPUTER" by code_simp+
  from make_move_legal_column[OF h1 h2 h3] obtain row s' where
    *: "make_move ?s 6 = Inr s'" "empty_cells s' = empty_cells ?s - 1"
       "whose_turn ?s = COMPUTER \<longrightarrow> whose_turn s' = HUMAN"
       "heuristic_value s' =
         (if four_in_row (board s') COMPUTER then VIC
          else if four_in_row (board s') HUMAN then LOSS
          else if empty_cells s' = 0 then TIE
          else of_int (score_position (board s') COMPUTER - score_position (board s') HUMAN))"
    by blast
  from *(1) bd have b: "board s' = ?B" by simp
  from * b win e t show "\<exists>s'. make_move ?s 6 = Inr s'
       \<and> four_in_row (board s') COMPUTER \<and> heuristic_value s' = VIC
       \<and> whose_turn s' = HUMAN \<and> empty_cells s' = 4"
    by (intro exI[of _ s']) simp
next
  let ?s = "human_threat_state"
  let ?B = "[[1, 1, 1, 1, 2, 2, 0], [0, 0, 0, 0, 2, 0, 0], [0, 0, 0, 0, 0, 0, 0],
             [0, 0, 0, 0, 0, 0, 0], [0, 0, 0, 0, 0, 0, 0], [0, 0, 0, 0, 0, 0, 0::int]]"
  have h1: "shape_ok (board ?s)" by code_simp
  have h2: "legal_column (board ?s) 3" by code_simp
  have h3: "whose_turn ?s = HUMAN \<or> whose_turn ?s = COMPUTER" by code_simp
  have bd: "map_sum id board (make_move ?s 3) = Inr ?B" by code_simp
  have win: "\<not> four_in_row ?B COMPUTER" "four_in_row ?B HUMAN" by code_simp+
  have e: "empty_cells ?s = 36" and t: "whose_turn ?s = HUMAN" by code_simp+
  from make_move_legal_column[OF h1 h2 h3] obtain row s' where
    *: "make_move ?s 3 = Inr s'" "empty_cells s' = empty_cells ?s - 1"
       "whose_turn ?s = HUMAN \<longrightarrow> whose_turn s' = COMPUTER"
       "heuristic_value s' =
         (if four_in_row (board s') COMPUTER then VIC
          else if four_in_row (board s') HUMAN then LOSS
          else if empty_cells s' = 0 then TIE
          else of_int (score_position (board s') COMPUTER - score_position (board s') HUMAN))"
    by blast
  from *(1) bd have b: "board s' = ?B" by simp
  from * b win e t show "\<exists>s'. make_move ?s 3 = Inr s'
       \<and> \<not> four_in_row (board s') COMPUTER \<and> four_in_row (board s') HUMAN
       \<and> heuristic_value s' = LOSS \<and> whose_turn s' = COMPUTER \<and> empty_cells s' = 35"
    by (intro exI[of _ s']) simp
next
  let ?s = "create_state last_cell_board"
  let ?B = "[[1, 1, 2, 2, 1, 1, 2], [2, 2, 1, 1, 2, 2, 1], [1, 1, 2, 2, 1, 1, 2],
             [2, 2, 1, 1, 2, 2, 1], [1, 1, 2, 2, 1, 1, 2], [2, 2, 1, 1, 2, 2, 1::int]]"
  have h1: "shape_ok (board ?s)" by code_simp
  have h2: "legal_column (board ?s) 5" by code_simp
  have h3: "whose_turn ?s = HUMAN \<or> whose_turn ?s = COMPUTER" by code_simp
  have bd: "map_sum id board (make_move ?s 5) = Inr ?B" by code_simp
  have win: "\<not> four_in_row ?B COMPUTER" "\<not> four_in_row ?B HUMAN" by code_simp+
  have e: "empty_cells ?s = 1" by code_simp
  from make_move_legal_column[OF h1 h2 h3] obtain row s' where
    *: "make_move ?s 5 = Inr s'" "empty_cells s' = empty_cells ?s - 1"
       "heuristic_value s' =
         (if four_in_row (board s') COMPUTER then VIC
          else if four_in_row (board s') HUMAN then LOSS
          else if empty_cells s' = 0 then TIE
          else of_int (score_position (board s') COMPUTER - score_position (board s') HUMAN))"
    by blast
  from *(1) bd have b: "board s' = ?B" by simp
  from * b win e show "\<exists>s'. make_move ?s 5 = Inr s'
       \<and> \<not> four_in_row (board s') COMPUTER \<and> \<not> four_in_row (board s') HUMAN
       \<and> empty_cells s' = 0 \<and> heuristic_value s' = TIE"
    by (intro exI[of _ s']) simp
next
  let ?s = "create_state empty_board"
  let ?B = "[[0, 0, 0, 2, 0, 0, 0], [0, 0, 0, 0, 0, 0, 0], [0, 0, 0, 0, 0, 0, 0],
             [0, 0, 0, 0, 0, 0, 0], [0, 0, 0, 0, 0, 0, 0], [0, 0, 0, 0, 0, 0, 0::int]]"
  have h1: "shape_ok (board ?s)" by code_simp
  have h2: "legal_column (board ?s) 3" by code_simp
  have h3: "whose_turn ?s = HUMAN \<or> whose_turn ?s = COMPUTER" by code_simp
  have bd: "map_sum id board (make_move ?s 3) = Inr ?B" by code_simp
  have win: "\<not> four_in_row ?B COMPUTER" "\<not> four_in_row ?B HUMAN" by code_simp+
  have sc: "spec_score ?B COMPUTER = 6" "spec_score ?B HUMAN = 0" by code_simp+
  have e: "empty_cells ?s = 42" and t: "whose_turn ?s = COMPUTER" and bs: "board ?s = empty_board"
    by code_simp+
  from make_move_legal_column[OF h1 h2 h3] obtain row s' where
    *: "make_move ?s 3 = Inr s'" "lowest_empty (board ?s) 3 row"
       "board s' ! row ! 3 = whose_turn ?s" "empty_cells s' = empty_cells ?s - 1"
       "whose_turn ?s = COMPUTER \<longrightarrow> whose_turn s' = HUMAN"
       "heuristic_value s' =
         (if four_in_row (board s') COMPUTER then VIC
          else if four_in_row (board s') HUMAN then LOSS
          else if empty_cells s' = 0 then TIE
          else of_int (score_position (board s') COMPUTER - score_position (board s') HUMAN))"
       "score_position (board s') COMPUTER = spec_score (board s') COMPUTER"
       "score_position (board s') HUMAN = spec_score (board s') HUMAN"
    by blast
  from *(1) bd have b: "board s' = ?B" by simp
  from * b win sc e t bs show "\<exists>row s'. make_move ?s 3 = Inr s'
       \<and> lowest_empty empty_board 3 row \<and> board s' ! row ! 3 = COMPUTER
       \<and> \<not> four_in_row (board s') COMPUTER \<and> \<not> four_in_row (board s') HUMAN
       \<and> empty_cells s' = 41 \<and> whose_turn s' = HUMAN \<and> heuristic_value s' = 6"
    by (intro exI[of _ row] exI[of _ s']) simp
qed

subsection \<open>Move generator\<close>

lemma get_valid_columns_legal:
  "get_valid_columns b = filter (legal_column b) [0..<COLUMN_COUNT]"
  by (auto simp: get_valid_columns_def legal_column_def intro: filter_cong)

lemma sort_center: "sort_key (\<lambda>x. \<bar>int x - int (COLUMN_COUNT div 2)\<bar>) [0..<COLUMN_COUNT] = center_order"
  by code_simp

lemma ordered_columns:
  "sort_key (\<lambda>x. \<bar>int x - int (COLUMN_COUNT div 2)\<bar>) (get_valid_columns b)
     = filter (legal_column b) center_order"
  by (simp only: get_valid_columns_legal filter_sort[symmetric] sort_center)

lemma make_move_in_range:
  "col < COLUMN_COUNT \<Longrightarrow> \<exists>st. make_move s col = Inr st"
  by (simp add: make_move_def get_next_row_def Let_def)

lemma get_next_loop_ok:
  assumes "\<forall>col \<in> set cols. col < COLUMN_COUNT"
  shows "\<exists>children. get_next_loop s cols = Inr children
           \<and> map snd children = cols
           \<and> map (Inr \<circ> fst) children = map (make_move s) cols"
  using assms
proof (induction cols)
  case Nil
  then show ?case by simp
next
  case (Cons col cols)
  then obtain children where ch: "get_next_loop s cols = Inr children"
    "map snd children = cols" "map (Inr \<circ> fst) children = map (make_move s) cols"
    by auto
  from Cons.prems have "col < COLUMN_COUNT" by simp
  then obtain st where st: "make_move s col = Inr st"
    using make_move_in_range by blast
  show ?case
    using ch(3) by (intro exI[of _ "(st, col) # children"]) (simp add: ch(1,2) st comp_def)
qed

lemma get_next_children:
  "\<exists>children. get_next s = Inr children
      \<and> map snd children = filter (legal_column (board s)) center_order
      \<and> map (Inr \<circ> fst) children = map (make_move s \<circ> snd) children"
proof -
  let ?cols = "filter (legal_column (board s)) center_order"
  have "\<forall>col \<in> set ?cols. col < COLUMN_COUNT" by (simp add: legal_column_def)
  from get_next_loop_ok[OF this, of s] obtain children where
    ch: "get_next_loop s ?cols = Inr children" "map snd children = ?cols"
        "map (Inr \<circ> fst) children = map (make_move s) ?cols" by blast
  from ch(2,3) have "map (Inr \<circ> fst) children = map (make_move s) (map snd children)" by simp
  then have "map (Inr \<circ> fst) children = map (make_move s \<circ> snd) children" by simp
  moreover have "get_next s = Inr children"
    using ch(1) by (simp add: get_next_def Let_def ordered_columns)
  ultimately show ?thesis using ch(2) by blast
qed

lemma center_order_sorted: "sorted_wrt closer_to_center center_order"
  by code_simp

lemma center_order_perm: "set center_order = {0..<COLUMN_COUNT}" "distinct center_order"
  by (auto simp: center_order_def COLUMN_COUNT_def)

lemma get_next_columns:
  "\<exists>children. get_next s = Inr children
      \<and> map snd children = filter (legal_column (board s)) center_order
      \<and> set (map snd children) = {col. legal_column (board s) col}
      \<and> distinct (map snd children)
      \<and> sorted_wrt closer_to_center (map snd children)
      \<and> map (Inr \<circ> fst) children = map (make_move s \<circ> snd) children"
proof -
  from get_next_children[of s] obtain children where ch: "get_next s = Inr children"
    "map snd children = filter (legal_column (board s)) center_order"
    "map (Inr \<circ> fst) children = map (make_move s \<circ> snd) children" by blast
  have "set (map snd children) = {col. legal_column (board s) col}"
    unfolding ch(2) using center_order_perm(1) by (auto simp: legal_column_def)
  moreover have "distinct (map snd children)"
    unfolding ch(2) using center_order_perm(2) by simp
  moreover have "sorted_wrt closer_to_center (map snd children)"
    unfolding ch(2) using center_order_sorted by (rule sorted_wrt_filter)
  ultimately show ?thesis using ch by blast
qed

subsection \<open>Terminal classification and boards without a move\<close>

text \<open>
  Claim C1. A state reached from a root by legal moves is classified as terminal exactly
  when its grid holds four in a row for a player or has no empty cell. The classification
  \<open>is_finished\<close> also holds where the heuristic score is exactly 0, the tie sentinel: after
  the centre opening of HUMAN and the centre reply of COMPUTER the two scores are 6 and 6,
  nobody has four in a row, 40 cells are empty, and the state is classified as finished.
\<close>

theorem is_finished_on_zero_score:
  "make_move (create_state opening_board) 3 = Inr center_reply
   \<and> is_finished center_reply
   \<and> \<not> check_win (board center_reply) COMPUTER
   \<and> \<not> check_win (board center_reply) HUMAN
   \<and> empty_cells center_reply = 40
   \<and> sum_list (map (\<lambda>row. count_list row EMPTY) (board center_reply)) = 40
   \<and> abmin center_reply 3 (Fin (LOSS - 1)) (Fin (VIC + 1)) = Inr (Fin 0, 0)"
  by code_simp

lemma no_legal_no_valid:
  assumes "no_legal_column b"
  shows "get_valid_columns b = []"
  using assms by (simp add: no_legal_column_def get_valid_columns_legal list_all_iff filter_empty_conv)

lemma get_next_no_valid:
  assumes "get_valid_columns (board s) = []"
  shows "get_next s = Inr []"
  using assms by (simp add: get_next_def)

text \<open>
  Claim C3. The claim is that \<open>go\<close> on a board without a legal column fails with an error.
  On the full board \<open>drawn_board\<close> it returns column 0.
\<close>

theorem go_no_legal_column_counterexample:
  "shape_ok drawn_board \<and> no_legal_column drawn_board \<and> go drawn_board = Inr 0"
  by code_simp

text \<open>
  Claim C3, as the code has it: on every 6x7 board without a legal column \<open>go\<close> returns
  normally, and the column it returns is 0.
\<close>

theorem go_no_legal_column:
  assumes "shape_ok b" and "no_legal_column b"
  shows "go b = Inr 0"
proof -
  have "get_next (create_state b) = Inr []"
    using assms(2) by (intro get_next_no_valid) (simp add: create_state_def no_legal_no_valid)
  then have "\<exists>v. abmax (create_state b) DEPTH (Fin (LOSS - 1)) (Fin (VIC + 1)) = Inr (v, 0)"
    by simp
  then show ?thesis by (auto simp: go_def)
qed

theorem go_no_legal_column_witness:
  "no_legal_column won_full_board \<and> go won_full_board = Inr 0"
proof -
  have s: "shape_ok won_full_board" by code_simp
  have h: "no_legal_column won_full_board" by code_simp
  from h go_no_legal_column[OF s h] show ?thesis by simp
qed

subsection \<open>Valid boards and search states\<close>

lemma sum_list_update_nat:
  fixes xs :: "nat list"
  shows "i < length xs \<Longrightarrow> sum_list (xs[i := y]) + xs ! i = sum_list xs + y"
  by (induction xs arbitrary: i) (auto simp: nth_Cons' split: nat.splits)

lemma count_list_update_empty:
  assumes "i < length xs" and "xs ! i = EMPTY" and "x \<noteq> EMPTY"
  shows "count_list (xs[i := x]) EMPTY + 1 = count_list xs EMPTY"
  using assms by (induction xs arbitrary: i) (auto simp: nth_Cons' split: nat.splits if_splits)

lemma empty_count_update:
  assumes "row < length b" and "col < length (b ! row)" and "b ! row ! col = EMPTY" and "x \<noteq> EMPTY"
  shows "empty_count (b[row := (b ! row)[col := x]]) + 1 = empty_count b"
proof -
  let ?f = "\<lambda>row. count_list row EMPTY"
  have "sum_list ((map ?f b)[row := ?f ((b ! row)[col := x])]) + map ?f b ! row
          = sum_list (map ?f b) + ?f ((b ! row)[col := x])"
    using assms(1) by (intro sum_list_update_nat) simp
  moreover have "?f ((b ! row)[col := x]) + 1 = ?f (b ! row)"
    using assms(2-4) by (rule count_list_update_empty)
  ultimately show ?thesis
    using assms(1) by (simp add: empty_count_def map_update)
qed

lemma empty_count_pos:
  assumes "empty_count b \<noteq> 0"
  shows "\<exists>r < length b. \<exists>c < length (b ! r). b ! r ! c = EMPTY"
proof -
  from assms obtain row where "row \<in> set b" "count_list row EMPTY \<noteq> 0"
    by (auto simp: empty_count_def)
  then have "EMPTY \<in> set row" by (simp add: count_list_0_iff)
  with \<open>row \<in> set b\<close> show ?thesis by (metis in_set_conv_nth)
qed

lemma gravity_step:
  "gravity b \<Longrightarrow> c < COLUMN_COUNT \<Longrightarrow> r + 1 < ROW_COUNT \<Longrightarrow> b ! r ! c = EMPTY \<Longrightarrow> b ! (r + 1) ! c = EMPTY"
  by (auto simp: gravity_def list_all_iff)

lemma gravity_top:
  assumes "gravity b" and "c < COLUMN_COUNT" and "r < ROW_COUNT" and "b ! r ! c = EMPTY"
  shows "b ! (ROW_COUNT - 1) ! c = EMPTY"
proof -
  have "r + k < ROW_COUNT \<Longrightarrow> b ! (r + k) ! c = EMPTY" for k
  proof (induction k)
    case 0
    then show ?case using assms(4) by simp
  next
    case (Suc k)
    then have "b ! (r + k) ! c = EMPTY" by simp
    with assms(1,2) Suc.prems have "b ! (r + k + 1) ! c = EMPTY" by (intro gravity_step) auto
    then show ?case by simp
  qed
  from this[of "ROW_COUNT - 1 - r"] assms(3) show ?thesis by simp
qed

lemma gravity_update:
  assumes "gravity b" and "lowest_empty b col row" and "x \<noteq> EMPTY"
  shows "gravity (b[row := (b ! row)[col := x]])"
proof -
  let ?b = "b[row := (b ! row)[col := x]]"
  have low: "b ! row ! col = EMPTY" "\<And>r. r < row \<Longrightarrow> b ! r ! col \<noteq> EMPTY"
    using assms(2) by (auto simp: lowest_empty_def list_all_iff)
  have "?b ! (r + 1) ! c = EMPTY"
    if "c < COLUMN_COUNT" "r + 1 < ROW_COUNT" "?b ! r ! c = EMPTY" for r c
  proof -
    from that(3) assms(3) have old: "b ! r ! c = EMPTY" and ne: "\<not> (r = row \<and> c = col \<and> row < length b \<and> col < length (b ! row))"
      by (auto simp: nth2_update split: if_splits)
    from assms(1) that(1,2) old have up: "b ! (r + 1) ! c = EMPTY" by (rule gravity_step)
    show ?thesis
    proof (cases "r + 1 = row \<and> c = col")
      case True
      with low(2)[of r] old show ?thesis by simp
    next
      case False
      with up show ?thesis by (auto simp: nth2_update)
    qed
  qed
  then show ?thesis by (auto simp: gravity_def list_all_iff)
qed


lemma make_move_state_ok:
  assumes "state_ok s" and "legal_column (board s) col" and "make_move s col = Inr s'"
  shows "state_ok s'"
proof -
  from assms(2) obtain row where low: "lowest_empty (board s) col row"
    using legal_lowest_empty by blast
  from assms(2) have col: "col < COLUMN_COUNT" by (simp add: legal_column_def)
  let ?b = "(board s)[row := (board s ! row)[col := whose_turn s]]"
  from make_move_lowest[OF col low] assms(3)
  have s': "board s' = ?b" "empty_cells s' = empty_cells s - 1"
    "whose_turn s' = (if whose_turn s = HUMAN then COMPUTER else HUMAN)"
    by auto
  from assms(1) have sh: "shape_ok (board s)" and gr: "gravity (board s)"
    and cnt: "empty_cells s = int (empty_count (board s))"
    and turn: "whose_turn s = HUMAN \<or> whose_turn s = COMPUTER"
    by (auto simp: state_ok_def valid_board_def)
  from turn have ne: "whose_turn s \<noteq> EMPTY" by (auto simp: HUMAN_def COMPUTER_def EMPTY_def)
  from low have row: "row < ROW_COUNT" and emp: "board s ! row ! col = EMPTY"
    by (auto simp: lowest_empty_def)
  have "empty_count ?b + 1 = empty_count (board s)"
    using row col emp ne sh by (intro empty_count_update) (auto simp: shape_ok_length shape_ok_nth)
  with cnt have "empty_cells s - 1 = int (empty_count ?b)" by simp
  moreover have "shape_ok ?b" using sh by (rule shape_ok_update)
  moreover have "gravity ?b" using gr low ne by (rule gravity_update)
  ultimately show ?thesis
    unfolding state_ok_def valid_board_def s' by (auto simp: HUMAN_def COMPUTER_def)
qed

lemma state_ok_create:
  assumes "valid_board b"
  shows "state_ok (create_state b)"
  using assms by (simp add: state_ok_def create_state_def empty_count_def EMPTY_def)

lemma state_ok_legal:
  assumes "state_ok s" and "empty_cells s \<noteq> 0"
  shows "\<exists>col. legal_column (board s) col"
proof -
  from assms have "empty_count (board s) \<noteq> 0" by (auto simp: state_ok_def)
  from empty_count_pos[OF this] obtain r c where
    rc: "r < length (board s)" "c < length (board s ! r)" "board s ! r ! c = EMPTY" by blast
  from assms(1) have sh: "shape_ok (board s)" and gr: "gravity (board s)"
    by (auto simp: state_ok_def valid_board_def)
  from rc(1) sh have r: "r < ROW_COUNT" by (simp add: shape_ok_length)
  with rc(2) sh have c: "c < COLUMN_COUNT" by (simp add: shape_ok_nth)
  from gravity_top[OF gr c r rc(3)] c show ?thesis by (auto simp: legal_column_def)
qed

lemma legal_in_center_order:
  "legal_column b col \<Longrightarrow> col \<in> set (filter (legal_column b) center_order)"
  using center_order_perm(1) by (auto simp: legal_column_def)

lemma get_next_state_ok:
  assumes "state_ok s" and "get_next s = Inr children"
  shows "\<forall>ch \<in> set children. state_ok (fst ch) \<and> legal_column (board s) (snd ch)"
proof
  fix ch assume ch: "ch \<in> set children"
  from get_next_children[of s] assms(2) have
    cols: "map snd children = filter (legal_column (board s)) center_order"
    and mv: "map (Inr \<circ> fst) children = map (make_move s \<circ> snd) children" by auto
  from ch have "snd ch \<in> set (map snd children)" by simp
  then have leg: "legal_column (board s) (snd ch)" unfolding cols by simp
  from mv have "\<forall>x \<in> set children. (Inr \<circ> fst) x = (make_move s \<circ> snd) x"
    by (simp only: map_eq_conv)
  with ch have "make_move s (snd ch) = Inr (fst ch)" by simp
  with assms(1) leg show "state_ok (fst ch) \<and> legal_column (board s) (snd ch)"
    using make_move_state_ok by blast
qed

lemma get_next_nonempty:
  assumes "state_ok s" and "\<not> is_finished s" and "get_next s = Inr children"
  shows "children \<noteq> []"
proof -
  from assms(2) have "empty_cells s \<noteq> 0" by (simp add: is_finished_def)
  with assms(1) obtain col where "legal_column (board s) col" using state_ok_legal by blast
  then have "filter (legal_column (board s)) center_order \<noteq> []"
    using legal_in_center_order by fastforce
  with get_next_children[of s] assms(3) show ?thesis by auto
qed

subsection \<open>The alpha-beta loops\<close>

lemma first_max_char:
  assumes "first_max tr v best = (v', c')"
  shows "v \<le> v'" and "\<forall>x \<in> fst ` set tr. x \<le> v'"
    and "(\<exists>x \<in> fst ` set tr. v < x) \<longrightarrow>
           (\<exists>i < length tr. tr ! i = (v', c') \<and> (\<forall>j < i. fst (tr ! j) < v'))"
    and "\<not> (\<exists>x \<in> fst ` set tr. v < x) \<longrightarrow> v' = v \<and> c' = best"
  using assms
proof (induction tr arbitrary: v best)
  case Nil
  { case 1 then show ?case by simp }
  { case 2 then show ?case by simp }
  { case 3 then show ?case by simp }
  { case 4 then show ?case by simp }
next
  case (Cons p tr)
  obtain x c where p: "p = (x, c)" by (cases p)
  { case 1
    show ?case
    proof (cases "v < x")
      case True
      with 1 p have "first_max tr x c = (v', c')" by simp
      from Cons.IH(1)[OF this] True show ?thesis by simp
    next
      case False
      with 1 p have "first_max tr v best = (v', c')" by simp
      from Cons.IH(1)[OF this] show ?thesis .
    qed }
  { case 2
    show ?case
    proof (cases "v < x")
      case True
      with 2 p have fm: "first_max tr x c = (v', c')" by simp
      from Cons.IH(1)[OF fm] Cons.IH(2)[OF fm] p show ?thesis by simp
    next
      case False
      with 2 p have fm: "first_max tr v best = (v', c')" by simp
      from Cons.IH(1)[OF fm] Cons.IH(2)[OF fm] p False show ?thesis by auto
    qed }
  { case 3
    show ?case
    proof (cases "v < x")
      case True
      with 3 p have fm: "first_max tr x c = (v', c')" by simp
      show ?thesis
      proof (cases "\<exists>y \<in> fst ` set tr. x < y")
        case True
        with Cons.IH(3)[OF fm] obtain i where
          i: "i < length tr" "tr ! i = (v', c')" "\<forall>j < i. fst (tr ! j) < v'" by blast
        from Cons.IH(1)[OF fm] True Cons.IH(2)[OF fm] have "x < v'" by force
        with i p have "Suc i < length (p # tr) \<and> (p # tr) ! Suc i = (v', c')
               \<and> (\<forall>j < Suc i. fst ((p # tr) ! j) < v')"
          by (auto simp: nth_Cons' less_Suc_eq_0_disj)
        then show ?thesis by blast
      next
        case False
        with Cons.IH(4)[OF fm] have "v' = x" "c' = c" by auto
        with p have "0 < length (p # tr) \<and> (p # tr) ! 0 = (v', c')
               \<and> (\<forall>j < 0. fst ((p # tr) ! j) < v')" by simp
        then show ?thesis by blast
      qed
    next
      case False
      with 3 p have fm: "first_max tr v best = (v', c')" by simp
      show ?thesis
      proof
        assume "\<exists>y \<in> fst ` set (p # tr). v < y"
        with False p have ex: "\<exists>y \<in> fst ` set tr. v < y" by auto
        with Cons.IH(3)[OF fm] obtain i where
          i: "i < length tr" "tr ! i = (v', c')" "\<forall>j < i. fst (tr ! j) < v'" by blast
        from ex Cons.IH(2)[OF fm] have "v < v'" by force
        with False have "x < v'" by simp
        with i p have "Suc i < length (p # tr) \<and> (p # tr) ! Suc i = (v', c')
               \<and> (\<forall>j < Suc i. fst ((p # tr) ! j) < v')"
          by (auto simp: nth_Cons' less_Suc_eq_0_disj)
        then show "\<exists>i < length (p # tr). (p # tr) ! i = (v', c') \<and> (\<forall>j < i. fst ((p # tr) ! j) < v')"
          by blast
      qed
    qed }
  { case 4
    show ?case
    proof (cases "v < x")
      case True
      with p show ?thesis by auto
    next
      case False
      with 4 p have fm: "first_max tr v best = (v', c')" by simp
      from Cons.IH(4)[OF fm] p show ?thesis by auto
    qed }
qed


lemma first_min_char:
  assumes "first_min tr v best = (v', c')"
  shows "v' \<le> v" and "\<forall>x \<in> fst ` set tr. v' \<le> x"
    and "(\<exists>x \<in> fst ` set tr. x < v) \<longrightarrow>
           (\<exists>i < length tr. tr ! i = (v', c') \<and> (\<forall>j < i. v' < fst (tr ! j)))"
    and "\<not> (\<exists>x \<in> fst ` set tr. x < v) \<longrightarrow> v' = v \<and> c' = best"
  using assms
proof (induction tr arbitrary: v best)
  case Nil
  { case 1 then show ?case by simp }
  { case 2 then show ?case by simp }
  { case 3 then show ?case by simp }
  { case 4 then show ?case by simp }
next
  case (Cons p tr)
  obtain x c where p: "p = (x, c)" by (cases p)
  { case 1
    show ?case
    proof (cases "x < v")
      case True
      with 1 p have "first_min tr x c = (v', c')" by simp
      from Cons.IH(1)[OF this] True show ?thesis by simp
    next
      case False
      with 1 p have "first_min tr v best = (v', c')" by simp
      from Cons.IH(1)[OF this] show ?thesis .
    qed }
  { case 2
    show ?case
    proof (cases "x < v")
      case True
      with 2 p have fm: "first_min tr x c = (v', c')" by simp
      from Cons.IH(1)[OF fm] Cons.IH(2)[OF fm] p show ?thesis by simp
    next
      case False
      with 2 p have fm: "first_min tr v best = (v', c')" by simp
      from Cons.IH(1)[OF fm] Cons.IH(2)[OF fm] p False show ?thesis by auto
    qed }
  { case 3
    show ?case
    proof (cases "x < v")
      case True
      with 3 p have fm: "first_min tr x c = (v', c')" by simp
      show ?thesis
      proof (cases "\<exists>y \<in> fst ` set tr. y < x")
        case True
        with Cons.IH(3)[OF fm] obtain i where
          i: "i < length tr" "tr ! i = (v', c')" "\<forall>j < i. v' < fst (tr ! j)" by blast
        from Cons.IH(1)[OF fm] True Cons.IH(2)[OF fm] have "v' < x" by force
        with i p have "Suc i < length (p # tr) \<and> (p # tr) ! Suc i = (v', c')
               \<and> (\<forall>j < Suc i. v' < fst ((p # tr) ! j))"
          by (auto simp: nth_Cons' less_Suc_eq_0_disj)
        then show ?thesis by blast
      next
        case False
        with Cons.IH(4)[OF fm] have "v' = x" "c' = c" by auto
        with p have "0 < length (p # tr) \<and> (p # tr) ! 0 = (v', c')
               \<and> (\<forall>j < 0. v' < fst ((p # tr) ! j))" by simp
        then show ?thesis by blast
      qed
    next
      case False
      with 3 p have fm: "first_min tr v best = (v', c')" by simp
      show ?thesis
      proof
        assume "\<exists>y \<in> fst ` set (p # tr). y < v"
        with False p have ex: "\<exists>y \<in> fst ` set tr. y < v" by auto
        with Cons.IH(3)[OF fm] obtain i where
          i: "i < length tr" "tr ! i = (v', c')" "\<forall>j < i. v' < fst (tr ! j)" by blast
        from ex Cons.IH(2)[OF fm] have "v' < v" by force
        with False have "v' < x" by simp
        with i p have "Suc i < length (p # tr) \<and> (p # tr) ! Suc i = (v', c')
               \<and> (\<forall>j < Suc i. v' < fst ((p # tr) ! j))"
          by (auto simp: nth_Cons' less_Suc_eq_0_disj)
        then show "\<exists>i < length (p # tr). (p # tr) ! i = (v', c') \<and> (\<forall>j < i. v' < fst ((p # tr) ! j))"
          by blast
      qed
    qed }
  { case 4
    show ?case
    proof (cases "x < v")
      case True
      with p show ?thesis by auto
    next
      case False
      with 4 p have fm: "first_min tr v best = (v', c')" by simp
      from Cons.IH(4)[OF fm] p show ?thesis by auto
    qed }
qed


lemma abmax_loop_scan:
  assumes "abmax_loop cs d1 a b v best = Inr r"
    and "v < b \<or> (\<forall>x \<in> fst ` set (abmax_trace cs d1 a b v). v < x)"
  shows "r = first_max (abmax_trace cs d1 a b v) v best"
  using assms
proof (induction cs arbitrary: a v best)
  case Nil
  then show ?case by simp
next
  case (Cons ch rest)
  obtain st col where ch: "ch = (st, col)" by (cases ch)
  from Cons.prems(1) ch obtain tmp where tmp: "abmin st d1 a b = Inr tmp"
    by (cases "abmin st d1 a b") auto
  let ?v = "if fst tmp > v then fst tmp else v"
  let ?best = "if fst tmp > v then col else best"
  let ?a = "if ?v > a then ?v else a"
  show ?case
  proof (cases "?v \<ge> b")
    case True
    with Cons.prems(1) ch tmp have r: "r = (?v, col)" by (simp add: Let_def)
    from True ch tmp have tr: "abmax_trace (ch # rest) d1 a b v = [(fst tmp, col)]"
      by (simp add: Let_def)
    from Cons.prems(2) True have "v < fst tmp" unfolding tr by (auto split: if_splits)
    with r tr show ?thesis by simp
  next
    case False
    with Cons.prems(1) ch tmp have loop: "abmax_loop rest d1 ?a b ?v ?best = Inr r"
      by (simp add: Let_def)
    from False ch tmp have tr: "abmax_trace (ch # rest) d1 a b v
        = (fst tmp, col) # abmax_trace rest d1 ?a b ?v"
      by (simp add: Let_def)
    from False have "?v < b" by simp
    then have "r = first_max (abmax_trace rest d1 ?a b ?v) ?v ?best"
      by (intro Cons.IH[OF loop]) simp
    then show ?thesis unfolding tr by simp
  qed
qed

lemma abmin_loop_scan:
  assumes "abmin_loop cs d1 a b v best = Inr r"
    and "a < v \<or> (\<forall>x \<in> fst ` set (abmin_trace cs d1 a b v). x < v)"
  shows "r = first_min (abmin_trace cs d1 a b v) v best"
  using assms
proof (induction cs arbitrary: b v best)
  case Nil
  then show ?case by simp
next
  case (Cons ch rest)
  obtain st col where ch: "ch = (st, col)" by (cases ch)
  from Cons.prems(1) ch obtain tmp where tmp: "abmax st d1 a b = Inr tmp"
    by (cases "abmax st d1 a b") auto
  let ?v = "if fst tmp < v then fst tmp else v"
  let ?best = "if fst tmp < v then col else best"
  let ?b = "if ?v < b then ?v else b"
  show ?case
  proof (cases "?v \<le> a")
    case True
    with Cons.prems(1) ch tmp have r: "r = (?v, col)" by (simp add: Let_def)
    from True ch tmp have tr: "abmin_trace (ch # rest) d1 a b v = [(fst tmp, col)]"
      by (simp add: Let_def)
    from Cons.prems(2) True have "fst tmp < v" unfolding tr by (auto split: if_splits)
    with r tr show ?thesis by simp
  next
    case False
    with Cons.prems(1) ch tmp have loop: "abmin_loop rest d1 a ?b ?v ?best = Inr r"
      by (simp add: Let_def)
    from False ch tmp have tr: "abmin_trace (ch # rest) d1 a b v
        = (fst tmp, col) # abmin_trace rest d1 a ?b ?v"
      by (simp add: Let_def)
    from False have "a < ?v" by simp
    then have "r = first_min (abmin_trace rest d1 a ?b ?v) ?v ?best"
      by (intro Cons.IH[OF loop]) simp
    then show ?thesis unfolding tr by simp
  qed
qed

lemma abmax_trace_columns:
  "\<exists>k. map snd (abmax_trace cs d1 a b v) = take k (map snd cs)"
proof (induction cs arbitrary: a v)
  case Nil
  then show ?case by simp
next
  case (Cons ch rest)
  obtain st col where ch: "ch = (st, col)" by (cases ch)
  show ?case
  proof (cases "abmin st d1 a b")
    case (Inl e)
    with ch have "map snd (abmax_trace (ch # rest) d1 a b v) = take 0 (map snd (ch # rest))" by simp
    then show ?thesis ..
  next
    case (Inr tmp)
    let ?v = "if fst tmp > v then fst tmp else v"
    show ?thesis
    proof (cases "?v \<ge> b")
      case True
      with ch Inr have "map snd (abmax_trace (ch # rest) d1 a b v) = take 1 (map snd (ch # rest))"
        by (simp add: Let_def)
      then show ?thesis ..
    next
      case False
      from Cons.IH[of "if ?v > a then ?v else a" ?v] obtain k where
        "map snd (abmax_trace rest d1 (if ?v > a then ?v else a) b ?v) = take k (map snd rest)" ..
      with False ch Inr have "map snd (abmax_trace (ch # rest) d1 a b v) = take (Suc k) (map snd (ch # rest))"
        by (simp add: Let_def)
      then show ?thesis ..
    qed
  qed
qed

lemma abmin_trace_columns:
  "\<exists>k. map snd (abmin_trace cs d1 a b v) = take k (map snd cs)"
proof (induction cs arbitrary: b v)
  case Nil
  then show ?case by simp
next
  case (Cons ch rest)
  obtain st col where ch: "ch = (st, col)" by (cases ch)
  show ?case
  proof (cases "abmax st d1 a b")
    case (Inl e)
    with ch have "map snd (abmin_trace (ch # rest) d1 a b v) = take 0 (map snd (ch # rest))" by simp
    then show ?thesis ..
  next
    case (Inr tmp)
    let ?v = "if fst tmp < v then fst tmp else v"
    show ?thesis
    proof (cases "?v \<le> a")
      case True
      with ch Inr have "map snd (abmin_trace (ch # rest) d1 a b v) = take 1 (map snd (ch # rest))"
        by (simp add: Let_def)
      then show ?thesis ..
    next
      case False
      from Cons.IH[of "if ?v < b then ?v else b" ?v] obtain k where
        "map snd (abmin_trace rest d1 a (if ?v < b then ?v else b) ?v) = take k (map snd rest)" ..
      with False ch Inr have "map snd (abmin_trace (ch # rest) d1 a b v) = take (Suc k) (map snd (ch # rest))"
        by (simp add: Let_def)
      then show ?thesis ..
    qed
  qed
qed


lemma is_fin_bounds: "is_fin x \<Longrightarrow> NegInf < x \<and> x < PosInf"
  by (cases x) (simp_all add: is_fin_def less_pyval_def)

lemma abmax_loop_total:
  assumes "\<forall>ch \<in> set cs. \<forall>a. \<exists>r. abmin (fst ch) d1 a b = Inr r"
  shows "\<exists>r. abmax_loop cs d1 a b v best = Inr r"
  using assms
proof (induction cs arbitrary: a v best)
  case Nil
  then show ?case by simp
next
  case (Cons ch rest)
  obtain st col where ch: "ch = (st, col)" by (cases ch)
  from Cons.prems ch obtain tmp where tmp: "abmin st d1 a b = Inr tmp" by fastforce
  from Cons.prems have "\<forall>ch \<in> set rest. \<forall>a. \<exists>r. abmin (fst ch) d1 a b = Inr r" by simp
  from Cons.IH[OF this] ch tmp show ?case by (simp add: Let_def)
qed

lemma abmin_loop_total:
  assumes "\<forall>ch \<in> set cs. \<forall>b. \<exists>r. abmax (fst ch) d1 a b = Inr r"
  shows "\<exists>r. abmin_loop cs d1 a b v best = Inr r"
  using assms
proof (induction cs arbitrary: b v best)
  case Nil
  then show ?case by simp
next
  case (Cons ch rest)
  obtain st col where ch: "ch = (st, col)" by (cases ch)
  from Cons.prems ch obtain tmp where tmp: "abmax st d1 a b = Inr tmp" by fastforce
  from Cons.prems have "\<forall>ch \<in> set rest. \<forall>b. \<exists>r. abmax (fst ch) d1 a b = Inr r" by simp
  from Cons.IH[OF this] ch tmp show ?case by (simp add: Let_def)
qed

lemma abmax_trace_values:
  assumes "\<forall>ch \<in> set cs. \<forall>a. \<exists>x c. abmin (fst ch) d1 a b = Inr (Fin x, c)"
  shows "(\<forall>x \<in> fst ` set (abmax_trace cs d1 a b v). is_fin x)
       \<and> (cs \<noteq> [] \<longrightarrow> abmax_trace cs d1 a b v \<noteq> [])"
  using assms
proof (induction cs arbitrary: a v)
  case Nil
  then show ?case by simp
next
  case (Cons ch rest)
  obtain st col where ch: "ch = (st, col)" by (cases ch)
  from Cons.prems ch obtain x c where tmp: "abmin st d1 a b = Inr (Fin x, c)" by fastforce
  from Cons.prems have "\<forall>ch \<in> set rest. \<forall>a. \<exists>x c. abmin (fst ch) d1 a b = Inr (Fin x, c)" by simp
  from Cons.IH[OF this] ch tmp show ?case by (simp add: Let_def is_fin_def)
qed

lemma abmin_trace_values:
  assumes "\<forall>ch \<in> set cs. \<forall>b. \<exists>x c. abmax (fst ch) d1 a b = Inr (Fin x, c)"
  shows "(\<forall>x \<in> fst ` set (abmin_trace cs d1 a b v). is_fin x)
       \<and> (cs \<noteq> [] \<longrightarrow> abmin_trace cs d1 a b v \<noteq> [])"
  using assms
proof (induction cs arbitrary: b v)
  case Nil
  then show ?case by simp
next
  case (Cons ch rest)
  obtain st col where ch: "ch = (st, col)" by (cases ch)
  from Cons.prems ch obtain x c where tmp: "abmax st d1 a b = Inr (Fin x, c)" by fastforce
  from Cons.prems have "\<forall>ch \<in> set rest. \<forall>b. \<exists>x c. abmax (fst ch) d1 a b = Inr (Fin x, c)" by simp
  from Cons.IH[OF this] ch tmp show ?case by (simp add: Let_def is_fin_def)
qed


lemma abmax_step:
  assumes ok: "state_ok s" and nf: "\<not> is_finished s" and d: "d \<noteq> 0"
    and H: "\<And>st a b. state_ok st \<Longrightarrow> \<exists>x c. abmin st (d - 1) a b = Inr (Fin x, c)"
  shows "\<exists>children x c i. get_next s = Inr children
     \<and> abmax s d a b = Inr (Fin x, c)
     \<and> i < length (abmax_trace children (d - 1) a b NegInf)
     \<and> abmax_trace children (d - 1) a b NegInf ! i = (Fin x, c)
     \<and> (\<forall>j < i. fst (abmax_trace children (d - 1) a b NegInf ! j) < Fin x)
     \<and> (\<forall>y \<in> fst ` set (abmax_trace children (d - 1) a b NegInf). y \<le> Fin x)
     \<and> abmax s d a b = Inr (first_max (abmax_trace children (d - 1) a b NegInf) NegInf 0)"
proof -
  from get_next_children[of s] obtain children where ch: "get_next s = Inr children" by blast
  let ?tr = "abmax_trace children (d - 1) a b NegInf"
  from get_next_state_ok[OF ok ch] have cok: "\<forall>ch \<in> set children. state_ok (fst ch)" by blast
  with H have fin: "\<forall>ch \<in> set children. \<forall>a. \<exists>x c. abmin (fst ch) (d - 1) a b = Inr (Fin x, c)"
    by blast
  then have "\<forall>ch \<in> set children. \<forall>a. \<exists>r. abmin (fst ch) (d - 1) a b = Inr r" by blast
  from abmax_loop_total[OF this] obtain r where
    loop: "abmax_loop children (d - 1) a b NegInf 0 = Inr r" by blast
  from abmax_trace_values[OF fin, of a NegInf] get_next_nonempty[OF ok nf ch]
  have vals: "\<forall>x \<in> fst ` set ?tr. is_fin x" and ne: "?tr \<noteq> []" by auto
  from vals have above: "\<forall>x \<in> fst ` set ?tr. NegInf < x" using is_fin_bounds by blast
  then have r: "r = first_max ?tr NegInf 0" by (intro abmax_loop_scan[OF loop]) simp
  obtain v' c' where r': "first_max ?tr NegInf 0 = (v', c')" by (cases "first_max ?tr NegInf 0")
  from ne above have "\<exists>x \<in> fst ` set ?tr. NegInf < x" by (cases ?tr) auto
  with first_max_char(3)[OF r'] obtain i where
    i: "i < length ?tr" "?tr ! i = (v', c')" "\<forall>j < i. fst (?tr ! j) < v'" by blast
  from i(1,2) have "v' \<in> fst ` set ?tr" by (metis fst_conv image_eqI nth_mem)
  with vals obtain x where x: "v' = Fin x" by (cases v') (auto simp: is_fin_def)
  from nf d ch have "abmax s d a b = abmax_loop children (d - 1) a b NegInf 0" by simp
  with loop have res: "abmax s d a b = Inr r" by (simp only:)
  have scan: "abmax s d a b = Inr (first_max ?tr NegInf 0)" unfolding res r ..
  from res r r' have "abmax s d a b = Inr (v', c')" by (simp only:)
  with ch i x first_max_char(2)[OF r'] scan show ?thesis by blast
qed

lemma abmin_step:
  assumes ok: "state_ok s" and nf: "\<not> is_finished s" and d: "d \<noteq> 0"
    and H: "\<And>st a b. state_ok st \<Longrightarrow> \<exists>x c. abmax st (d - 1) a b = Inr (Fin x, c)"
  shows "\<exists>children x c i. get_next s = Inr children
     \<and> abmin s d a b = Inr (Fin x, c)
     \<and> i < length (abmin_trace children (d - 1) a b PosInf)
     \<and> abmin_trace children (d - 1) a b PosInf ! i = (Fin x, c)
     \<and> (\<forall>j < i. Fin x < fst (abmin_trace children (d - 1) a b PosInf ! j))
     \<and> (\<forall>y \<in> fst ` set (abmin_trace children (d - 1) a b PosInf). Fin x \<le> y)
     \<and> abmin s d a b = Inr (first_min (abmin_trace children (d - 1) a b PosInf) PosInf 0)"
proof -
  from get_next_children[of s] obtain children where ch: "get_next s = Inr children" by blast
  let ?tr = "abmin_trace children (d - 1) a b PosInf"
  from get_next_state_ok[OF ok ch] have cok: "\<forall>ch \<in> set children. state_ok (fst ch)" by blast
  with H have fin: "\<forall>ch \<in> set children. \<forall>b. \<exists>x c. abmax (fst ch) (d - 1) a b = Inr (Fin x, c)"
    by blast
  then have "\<forall>ch \<in> set children. \<forall>b. \<exists>r. abmax (fst ch) (d - 1) a b = Inr r" by blast
  from abmin_loop_total[OF this] obtain r where
    loop: "abmin_loop children (d - 1) a b PosInf 0 = Inr r" by blast
  from abmin_trace_values[OF fin, of b PosInf] get_next_nonempty[OF ok nf ch]
  have vals: "\<forall>x \<in> fst ` set ?tr. is_fin x" and ne: "?tr \<noteq> []" by auto
  from vals have above: "\<forall>x \<in> fst ` set ?tr. x < PosInf" using is_fin_bounds by blast
  then have r: "r = first_min ?tr PosInf 0" by (intro abmin_loop_scan[OF loop]) simp
  obtain v' c' where r': "first_min ?tr PosInf 0 = (v', c')" by (cases "first_min ?tr PosInf 0")
  from ne above have "\<exists>x \<in> fst ` set ?tr. x < PosInf" by (cases ?tr) auto
  with first_min_char(3)[OF r'] obtain i where
    i: "i < length ?tr" "?tr ! i = (v', c')" "\<forall>j < i. v' < fst (?tr ! j)" by blast
  from i(1,2) have "v' \<in> fst ` set ?tr" by (metis fst_conv image_eqI nth_mem)
  with vals obtain x where x: "v' = Fin x" by (cases v') (auto simp: is_fin_def)
  from nf d ch have "abmin s d a b = abmin_loop children (d - 1) a b PosInf 0" by simp
  with loop have res: "abmin s d a b = Inr r" by (simp only:)
  have scan: "abmin s d a b = Inr (first_min ?tr PosInf 0)" unfolding res r ..
  from res r r' have "abmin s d a b = Inr (v', c')" by (simp only:)
  with ch i x first_min_char(2)[OF r'] scan show ?thesis by blast
qed

lemma search_finite:
  "state_ok s \<Longrightarrow>
     (\<exists>x c. abmax s d a b = Inr (Fin x, c)) \<and> (\<exists>x c. abmin s d a b = Inr (Fin x, c))"
proof (induction d arbitrary: s a b)
  case 0
  then show ?case by simp
next
  case (Suc d)
  show ?case
  proof (cases "is_finished s")
    case True
    then show ?thesis by simp
  next
    case False
    have H1: "\<exists>x c. abmin st (Suc d - 1) a b = Inr (Fin x, c)" if "state_ok st" for st a b
      using Suc.IH[OF that] by simp
    have H2: "\<exists>x c. abmax st (Suc d - 1) a b = Inr (Fin x, c)" if "state_ok st" for st a b
      using Suc.IH[OF that] by simp
    from abmax_step[OF Suc.prems False _ H1, of a b] obtain x c where
      "abmax s (Suc d) a b = Inr (Fin x, c)" by auto
    moreover from abmin_step[OF Suc.prems False _ H2, of a b] obtain y e where
      "abmin s (Suc d) a b = Inr (Fin y, e)" by auto
    ultimately show ?thesis by simp
  qed
qed

subsection \<open>Decision entry point and tie-break\<close>

lemma empty_count_cell:
  assumes "r < length b" and "c < length (b ! r)" and "b ! r ! c = EMPTY"
  shows "empty_count b \<noteq> 0"
proof -
  from assms(2,3) have "EMPTY \<in> set (b ! r)" by (metis nth_mem)
  then have "count_list (b ! r) EMPTY \<noteq> 0" by (simp add: count_list_0_iff)
  moreover from assms(1) have "b ! r \<in> set b" by simp
  ultimately show ?thesis by (auto simp: empty_count_def)
qed

lemma root_not_finished:
  assumes "shape_ok b" and "legal_column b col"
  shows "\<not> is_finished (create_state b)"
proof -
  from assms have "empty_count b \<noteq> 0"
    by (intro empty_count_cell[of "ROW_COUNT - 1" b col])
       (auto simp: legal_column_def shape_ok_length shape_ok_nth ROW_COUNT_def)
  then show ?thesis
    by (simp add: is_finished_def create_state_def empty_count_def EMPTY_def
        PLACEHOLDER_def LOSS_def VIC_def TIE_def)
qed

lemma trace_column_child:
  assumes "i < length tr" and "map snd tr = take k (map snd children)"
  shows "snd (tr ! i) \<in> snd ` set children"
proof -
  from assms(1) have "snd (tr ! i) \<in> set (map snd tr)" by (metis length_map nth_map nth_mem)
  with assms(2) have "snd (tr ! i) \<in> set (map snd children)" by (metis in_set_takeD)
  then show ?thesis by simp
qed

text \<open>
  Claim C2. For every valid 6x7 board (pieces resting on the bottom or on another piece) with
  at least one legal column, \<open>go\<close> returns normally, and the column it returns is below 7
  with its topmost cell empty on that board.
\<close>

theorem go_returns_legal_column:
  assumes "valid_board b" and "has_legal_column b"
  shows "\<exists>col. go b = Inr col \<and> col < COLUMN_COUNT \<and> b ! (ROW_COUNT - 1) ! col = EMPTY"
proof -
  let ?s = "create_state b"
  let ?a = "Fin (LOSS - 1)" and ?b = "Fin (VIC + 1)"
  from assms(2) obtain c0 where c0: "legal_column b c0"
    by (auto simp: has_legal_column_def list_ex_iff)
  from assms(1) have ok: "state_ok ?s" by (rule state_ok_create)
  from assms(1) c0 have nf: "\<not> is_finished ?s" by (intro root_not_finished) (auto simp: valid_board_def)
  have H: "\<exists>x c. abmin st (DEPTH - 1) a b = Inr (Fin x, c)" if "state_ok st" for st a b
    using search_finite[OF that] by blast
  have "DEPTH \<noteq> 0" by (simp add: DEPTH_def)
  from abmax_step[OF ok nf this H, of ?a ?b] obtain children x c i where
    ch: "get_next ?s = Inr children" and res: "abmax ?s DEPTH ?a ?b = Inr (Fin x, c)"
    and i: "i < length (abmax_trace children (DEPTH - 1) ?a ?b NegInf)"
      "abmax_trace children (DEPTH - 1) ?a ?b NegInf ! i = (Fin x, c)"
    by blast
  from abmax_trace_columns obtain k where
    "map snd (abmax_trace children (DEPTH - 1) ?a ?b NegInf) = take k (map snd children)" by blast
  from trace_column_child[OF i(1) this] i(2) have "c \<in> snd ` set children" by simp
  with get_next_state_ok[OF ok ch] have "legal_column (board ?s) c" by auto
  then have "legal_column b c" by (simp add: create_state_def)
  moreover from res have "go b = Inr c" by (simp add: go_def)
  ultimately show ?thesis by (auto simp: legal_column_def)
qed

theorem go_returns_legal_column_witness:
  "go last_cell_board = Inr 5"
proof -
  have h1: "valid_board last_cell_board" by code_simp
  have h2: "has_legal_column last_cell_board" by code_simp
  have only: "list_all (\<lambda>c. last_cell_board ! (ROW_COUNT - 1) ! c = EMPTY \<longrightarrow> c = 5) [0..<COLUMN_COUNT]"
    by code_simp
  from go_returns_legal_column[OF h1 h2] obtain col where
    col: "go last_cell_board = Inr col" "col < COLUMN_COUNT"
      "last_cell_board ! (ROW_COUNT - 1) ! col = EMPTY" by blast
  from only col(2,3) have "col = 5" by (simp add: list_all_iff)
  with col(1) show ?thesis by simp
qed

text \<open>
  Gravity is needed for the result above. On \<open>floating_board\<close> column 3 is the only legal
  column; after two moves in it no column is legal although cells are empty, the maximiser
  two plies down has no child and returns \<open>-inf\<close>, no value at the root is above the
  initial \<open>-inf\<close>, and the column returned is the initial 0, which is full.
\<close>

lemma go_without_gravity:
  "shape_ok floating_board \<and> \<not> gravity floating_board
   \<and> get_valid_columns floating_board = [3]
   \<and> abmax (create_state floating_board) DEPTH (Fin (LOSS - 1)) (Fin (VIC + 1)) = Inr (NegInf, 0)
   \<and> go floating_board = Inr 0"
  by code_simp

text \<open>
  Claim C7. In \<open>abmax\<close> the recorded best column is replaced only when the value backed up
  for a child is strictly above the running best, and in \<open>abmin\<close> only when it is strictly
  below. So on a valid, unfinished search state at positive depth the result is the scan
  that keeps the first of the best over the children visited, in generation order: the
  column returned belongs to the first child whose backed-up value equals the value
  returned, every child before it has a strictly worse value, and no child visited has a
  better one.
\<close>

theorem first_best_child_is_kept:
  assumes "state_ok s" and "\<not> is_finished s" and "d \<noteq> 0"
  shows "\<exists>children trmax trmin x c i y e k.
       get_next s = Inr children
     \<and> trmax = abmax_trace children (d - 1) a b NegInf
     \<and> (\<exists>n. map snd trmax = take n (map snd children))
     \<and> abmax s d a b = Inr (first_max trmax NegInf 0)
     \<and> abmax s d a b = Inr (Fin x, c)
     \<and> i < length trmax \<and> trmax ! i = (Fin x, c)
     \<and> (\<forall>j < i. fst (trmax ! j) < Fin x)
     \<and> (\<forall>z \<in> fst ` set trmax. z \<le> Fin x)
     \<and> trmin = abmin_trace children (d - 1) a b PosInf
     \<and> (\<exists>n. map snd trmin = take n (map snd children))
     \<and> abmin s d a b = Inr (first_min trmin PosInf 0)
     \<and> abmin s d a b = Inr (Fin y, e)
     \<and> k < length trmin \<and> trmin ! k = (Fin y, e)
     \<and> (\<forall>j < k. Fin y < fst (trmin ! j))
     \<and> (\<forall>z \<in> fst ` set trmin. Fin y \<le> z)"
proof -
  have H1: "\<exists>x c. abmin st (d - 1) a b = Inr (Fin x, c)" if "state_ok st" for st a b
    using search_finite[OF that] by blast
  have H2: "\<exists>x c. abmax st (d - 1) a b = Inr (Fin x, c)" if "state_ok st" for st a b
    using search_finite[OF that] by blast
  from abmax_step[OF assms H1, of a b] obtain children x c i where
    ch: "get_next s = Inr children" and mx: "abmax s d a b = Inr (Fin x, c)"
      "i < length (abmax_trace children (d - 1) a b NegInf)"
      "abmax_trace children (d - 1) a b NegInf ! i = (Fin x, c)"
      "\<forall>j < i. fst (abmax_trace children (d - 1) a b NegInf ! j) < Fin x"
      "\<forall>z \<in> fst ` set (abmax_trace children (d - 1) a b NegInf). z \<le> Fin x"
      "abmax s d a b = Inr (first_max (abmax_trace children (d - 1) a b NegInf) NegInf 0)"
    by blast
  from abmin_step[OF assms H2, of a b] ch obtain y e k where
    mn: "abmin s d a b = Inr (Fin y, e)"
      "k < length (abmin_trace children (d - 1) a b PosInf)"
      "abmin_trace children (d - 1) a b PosInf ! k = (Fin y, e)"
      "\<forall>j < k. Fin y < fst (abmin_trace children (d - 1) a b PosInf ! j)"
      "\<forall>z \<in> fst ` set (abmin_trace children (d - 1) a b PosInf). Fin y \<le> z"
      "abmin s d a b = Inr (first_min (abmin_trace children (d - 1) a b PosInf) PosInf 0)"
    by auto
  from abmax_trace_columns obtain n where
    n: "map snd (abmax_trace children (d - 1) a b NegInf) = take n (map snd children)" by blast
  from abmin_trace_columns obtain m where
    m: "map snd (abmin_trace children (d - 1) a b PosInf) = take m (map snd children)" by blast
  let ?trmax = "abmax_trace children (d - 1) a b NegInf"
  let ?trmin = "abmin_trace children (d - 1) a b PosInf"
  show ?thesis
    apply (rule exI[of _ children], rule exI[of _ ?trmax], rule exI[of _ ?trmin])
    apply (rule exI[of _ x], rule exI[of _ c], rule exI[of _ i])
    apply (rule exI[of _ y], rule exI[of _ e], rule exI[of _ k])
    using ch mx(2-5) mn(2-5) n m mx(1)[symmetric] mx(6)[symmetric] mn(1)[symmetric] mn(6)[symmetric]
    by (intro conjI) (simp_all, blast+)
qed


theorem first_best_child_is_kept_witness:
  "(\<exists>children. get_next (create_state center_full_board) = Inr children
      \<and> abmax (create_state center_full_board) 1 (Fin (LOSS - 1)) (Fin (VIC + 1))
          = Inr (first_max (abmax_trace children 0 (Fin (LOSS - 1)) (Fin (VIC + 1)) NegInf) NegInf 0)
      \<and> abmax_trace children 0 (Fin (LOSS - 1)) (Fin (VIC + 1)) NegInf
          = [(Fin 5, 2), (Fin 5, 4), (Fin 0, 1), (Fin 0, 5), (Fin 5, 0), (Fin 5, 6)])
   \<and> abmax (create_state center_full_board) 1 (Fin (LOSS - 1)) (Fin (VIC + 1)) = Inr (Fin 5, 2)
   \<and> abmin (create_state center_full_board) 1 (Fin (LOSS - 1)) (Fin (VIC + 1)) = Inr (Fin 0, 1)"
proof -
  let ?s = "create_state center_full_board"
  let ?a = "Fin (LOSS - 1)" and ?b = "Fin (VIC + 1)"
  have h1: "state_ok ?s" by code_simp
  have h2: "\<not> is_finished ?s" by code_simp
  have h3: "(1::nat) \<noteq> 0" by simp
  from first_best_child_is_kept[OF h1 h2 h3, of ?a ?b] obtain children where
    ch: "get_next ?s = Inr children"
    and scan: "abmax ?s 1 ?a ?b = Inr (first_max (abmax_trace children (1 - 1) ?a ?b NegInf) NegInf 0)"
    by blast
  let ?L = "[(\<lparr>board = [[0, 0, 2, 1, 0, 0, 0], [0, 0, 0, 2, 0, 0, 0], [0, 0, 0, 1, 0, 0, 0],
                 [0, 0, 0, 2, 0, 0, 0], [0, 0, 0, 1, 0, 0, 0], [0, 0, 0, 2, 0, 0, 0]],
        heuristic_value = 5, whose_turn = 1, empty_cells = 35\<rparr>, 2),
      (\<lparr>board = [[0, 0, 0, 1, 2, 0, 0], [0, 0, 0, 2, 0, 0, 0], [0, 0, 0, 1, 0, 0, 0],
                 [0, 0, 0, 2, 0, 0, 0], [0, 0, 0, 1, 0, 0, 0], [0, 0, 0, 2, 0, 0, 0]],
        heuristic_value = 5, whose_turn = 1, empty_cells = 35\<rparr>, 4),
      (\<lparr>board = [[0, 2, 0, 1, 0, 0, 0], [0, 0, 0, 2, 0, 0, 0], [0, 0, 0, 1, 0, 0, 0],
                 [0, 0, 0, 2, 0, 0, 0], [0, 0, 0, 1, 0, 0, 0], [0, 0, 0, 2, 0, 0, 0]],
        heuristic_value = 0, whose_turn = 1, empty_cells = 35\<rparr>, 1),
      (\<lparr>board = [[0, 0, 0, 1, 0, 2, 0], [0, 0, 0, 2, 0, 0, 0], [0, 0, 0, 1, 0, 0, 0],
                 [0, 0, 0, 2, 0, 0, 0], [0, 0, 0, 1, 0, 0, 0], [0, 0, 0, 2, 0, 0, 0]],
        heuristic_value = 0, whose_turn = 1, empty_cells = 35\<rparr>, 5),
      (\<lparr>board = [[2, 0, 0, 1, 0, 0, 0], [0, 0, 0, 2, 0, 0, 0], [0, 0, 0, 1, 0, 0, 0],
                 [0, 0, 0, 2, 0, 0, 0], [0, 0, 0, 1, 0, 0, 0], [0, 0, 0, 2, 0, 0, 0]],
        heuristic_value = 5, whose_turn = 1, empty_cells = 35\<rparr>, 0),
      (\<lparr>board = [[0, 0, 0, 1, 0, 0, 2], [0, 0, 0, 2, 0, 0, 0], [0, 0, 0, 1, 0, 0, 0],
                 [0, 0, 0, 2, 0, 0, 0], [0, 0, 0, 1, 0, 0, 0], [0, 0, 0, 2, 0, 0, 0]],
        heuristic_value = 5, whose_turn = 1, empty_cells = 35\<rparr>, 6)]"
  have gn: "get_next ?s = Inr ?L" by code_simp
  from ch gn have children: "children = ?L" by simp
  have "abmax_trace ?L 0 ?a ?b NegInf
      = [(Fin 5, 2), (Fin 5, 4), (Fin 0, 1), (Fin 0, 5), (Fin 5, 0), (Fin 5, 6)]"
    by code_simp
  then have tr: "abmax_trace children 0 ?a ?b NegInf
      = [(Fin 5, 2), (Fin 5, 4), (Fin 0, 1), (Fin 0, 5), (Fin 5, 0), (Fin 5, 6)]"
    unfolding children .
  have mx: "abmax ?s 1 ?a ?b = Inr (Fin 5, 2)" by code_simp
  have mn: "abmin ?s 1 ?a ?b = Inr (Fin 0, 1)" by code_simp
  from ch scan tr mx mn show ?thesis by simp
qed

text \<open>
  Claim C8. The claim is that on a valid board where exactly one legal column gives COMPUTER
  four in a row at once, \<open>go\<close> returns that column. On \<open>double_threat_board\<close> the only such
  column is 6, and \<open>go\<close> returns 3: the move in column 3 makes a second threat, every reply
  of HUMAN leaves a winning move, so column 3 is backed up with the same value \<open>VIC\<close> as
  column 6 and is met first.
\<close>

theorem go_misses_immediate_win:
  "valid_board double_threat_board
   \<and> filter (wins_now double_threat_board) [0..<COLUMN_COUNT] = [6]
   \<and> \<not> check_win double_threat_board COMPUTER
   \<and> \<not> check_win double_threat_board HUMAN
   \<and> go double_threat_board = Inr 3"
  by code_simp

subsection \<open>The caller's array\<close>

lemma extends_refl: "extends h h"
  by (simp add: extends_def)

lemma extends_trans:
  assumes "extends h h1" and "extends h1 h2"
  shows "extends h h2"
proof -
  from assms have le: "length h \<le> length h1" "length h1 \<le> length h2"
    and tk: "take (length h) h1 = h" "take (length h1) h2 = h1"
    by (simp_all add: extends_def)
  have "take (length h) h2 = take (length h) (take (length h1) h2)"
    using le(1) by (simp add: min_def)
  also have "\<dots> = h" by (simp only: tk)
  finally show ?thesis using le by (simp add: extends_def)
qed

lemma extends_nth:
  assumes "extends h h'" and "r < length h"
  shows "h' ! r = h ! r"
proof -
  from assms(1) have "take (length h) h' = h" by (simp add: extends_def)
  then have "h ! r = take (length h) h' ! r" by simp
  also have "\<dots> = h' ! r" using assms(2) by (rule nth_take)
  finally show ?thesis by simp
qed

lemma extends_append: "extends h (h @ xs)"
  by (simp add: extends_def)

lemma extends_update_new: "extends h h1 \<Longrightarrow> length h \<le> q \<Longrightarrow> extends h (h1[q := g])"
  by (simp add: extends_def take_update_cancel)

lemma view_extends: "extends h h' \<Longrightarrow> board_ref s < length h \<Longrightarrow> view h' s = view h s"
  by (simp add: view_def extends_nth)

lemma view_children_extends:
  "extends h h' \<Longrightarrow> refs_ok h cs \<Longrightarrow> view_children h' cs = view_children h cs"
  by (auto simp: view_children_def refs_ok_def list_all_iff view_extends)

lemma refs_ok_extends: "extends h h' \<Longrightarrow> refs_ok h cs \<Longrightarrow> refs_ok h' cs"
  by (auto simp: refs_ok_def list_all_iff extends_def)

lemma deepcopy_st_facts:
  assumes "deepcopy_st h s = (h1, cp)" and "board_ref s < length h"
  shows "extends h h1" and "view h1 cp = view h s" and "board_ref cp = length h"
    and "length h1 = Suc (length h)"
  using assms by (auto simp: deepcopy_st_def extends_append view_def nth_append)

lemma make_move_st_sim:
  assumes "board_ref s < length h"
  shows "(\<exists>e. make_move (view h s) col = Inl e \<and> make_move_st h s col = Inl e)
       \<or> (\<exists>h' t. make_move_st h s col = Inr (h', t) \<and> make_move (view h s) col = Inr (view h' t)
              \<and> board_ref t = board_ref s \<and> length h' = length h
              \<and> (\<forall>q. q \<noteq> board_ref s \<longrightarrow> h' ! q = h ! q))"
proof (cases "get_next_row (h ! board_ref s) col")
  case (Inl e)
  then show ?thesis by (simp add: make_move_def make_move_st_def view_def)
next
  case (Inr row)
  show ?thesis
  proof (cases "row = - 1")
    case True
    with Inr show ?thesis by (simp add: make_move_def make_move_st_def view_def)
  next
    case False
    with Inr assms show ?thesis
      by (simp add: make_move_def make_move_st_def view_def Let_def)
  qed
qed


lemma get_next_loop_st_sim:
  assumes "board_ref s < length h"
  shows "(\<exists>e. get_next_loop (view h s) cols = Inl e \<and> get_next_loop_st h s cols = Inl e)
       \<or> (\<exists>h' cs. get_next_loop_st h s cols = Inr (h', cs) \<and> extends h h' \<and> refs_ok h' cs
              \<and> get_next_loop (view h s) cols = Inr (view_children h' cs))"
  using assms
proof (induction cols arbitrary: h)
  case Nil
  then show ?case by (simp add: extends_refl refs_ok_def view_children_def)
next
  case (Cons col cols)
  obtain h1 cp where dc: "deepcopy_st h s = (h1, cp)" by (cases "deepcopy_st h s")
  note f = deepcopy_st_facts[OF dc Cons.prems]
  from f(3,4) have cp: "board_ref cp < length h1" by simp
  from make_move_st_sim[OF cp, of col] show ?case
  proof (elim disjE exE conjE)
    fix e assume "make_move (view h1 cp) col = Inl e" "make_move_st h1 cp col = Inl e"
    with dc f(2) show ?thesis by simp
  next
    fix h2 t
    assume mv: "make_move_st h1 cp col = Inr (h2, t)" "make_move (view h1 cp) col = Inr (view h2 t)"
      and t: "board_ref t = board_ref cp" and len: "length h2 = length h1"
      and same: "\<forall>q. q \<noteq> board_ref cp \<longrightarrow> h2 ! q = h1 ! q"
    have "extends h h2"
      unfolding extends_def using len f(4)
    proof (intro conjI)
      show "take (length h) h2 = h"
      proof (rule nth_equalityI)
        show "length (take (length h) h2) = length h" using len f(4) by simp
      next
        fix i assume "i < length (take (length h) h2)"
        then have i: "i < length h" by simp
        with same f(3) have "h2 ! i = h1 ! i" by simp
        also have "\<dots> = h ! i" using f(1) i by (rule extends_nth)
        finally show "take (length h) h2 ! i = h ! i" using i by simp
      qed
    qed simp
    then have e02: "extends h h2" .
    from Cons.prems e02 have s2: "board_ref s < length h2" by (simp add: extends_def)
    have vs: "view h2 s = view h s" using e02 Cons.prems by (rule view_extends)
    from t f(3) len f(4) have t2: "board_ref t < length h2" by simp
    from Cons.IH[OF s2] show ?thesis
    proof (elim disjE exE conjE)
      fix e assume "get_next_loop (view h2 s) cols = Inl e" "get_next_loop_st h2 s cols = Inl e"
      with dc mv f(2) vs show ?thesis by simp
    next
      fix h3 cs
      assume r: "get_next_loop_st h2 s cols = Inr (h3, cs)" "extends h2 h3" "refs_ok h3 cs"
        "get_next_loop (view h2 s) cols = Inr (view_children h3 cs)"
      have "view h3 t = view h2 t" using r(2) t2 by (rule view_extends)
      moreover have "extends h h3" using e02 r(2) by (rule extends_trans)
      moreover have "refs_ok h3 ((t, col) # cs)"
        using r(2,3) t2 by (simp add: refs_ok_def extends_def)
      ultimately show ?thesis
        using dc mv f(2) vs r(1,4) by (simp add: view_children_def)
    qed
  qed
qed

lemma get_next_st_sim:
  assumes "board_ref s < length h"
  shows "(\<exists>e. get_next (view h s) = Inl e \<and> get_next_st h s = Inl e)
       \<or> (\<exists>h' cs. get_next_st h s = Inr (h', cs) \<and> extends h h' \<and> refs_ok h' cs
              \<and> get_next (view h s) = Inr (view_children h' cs))"
  using get_next_loop_st_sim[OF assms]
  by (simp add: get_next_def get_next_st_def Let_def view_def)


declare abmax.simps [simp del] abmin.simps [simp del]
declare abmax_st.simps [simp del] abmin_st.simps [simp del]

lemma sim_Inl: "sim h x (Inl e) \<longleftrightarrow> x = Inl e"
  by (simp add: sim_def)

lemma sim_Inr: "sim h x (Inr r) \<longleftrightarrow> (\<exists>h'. x = Inr (h', r) \<and> extends h h')"
  by (simp add: sim_def)

lemma sim_mono:
  assumes "sim h2 x y" and "extends h h2"
  shows "sim h x y"
proof (cases y)
  case (Inl e)
  with assms(1) show ?thesis by (simp add: sim_def)
next
  case (Inr r)
  with assms(1) obtain h' where "x = Inr (h', r)" "extends h2 h'" by (auto simp: sim_def)
  with assms(2) Inr show ?thesis using extends_trans by (auto simp: sim_def)
qed

lemma abmax_loop_st_sim:
  assumes H: "\<And>h t a b. board_ref t < length h \<Longrightarrow>
                sim h (abmin_st h t d1 a b) (abmin (view h t) d1 a b)"
    and refs: "refs_ok h cs"
  shows "sim h (abmax_loop_st h cs d1 a b v best) (abmax_loop (view_children h cs) d1 a b v best)"
  using refs
proof (induction cs arbitrary: h a v best)
  case Nil
  then show ?case by (simp add: view_children_def sim_Inr extends_refl)
next
  case (Cons ch rest)
  obtain t col where ch: "ch = (t, col)" by (cases ch)
  from Cons.prems ch have t: "board_ref t < length h" and rest: "refs_ok h rest"
    by (simp_all add: refs_ok_def)
  obtain h1 arg where dc: "deepcopy_st h t = (h1, arg)" by (cases "deepcopy_st h t")
  note f = deepcopy_st_facts[OF dc t]
  from f(3,4) have "board_ref arg < length h1" by simp
  from H[OF this, of a b] f(2)
  have sm: "sim h1 (abmin_st h1 arg d1 a b) (abmin (view h t) d1 a b)" by simp
  have vc: "view_children h ((t, col) # rest) = (view h t, col) # view_children h rest"
    by (simp add: view_children_def)
  show ?case
  proof (cases "abmin (view h t) d1 a b")
    case (Inl e)
    with sm have "abmin_st h1 arg d1 a b = Inl e" by (simp add: sim_Inl)
    with Inl dc show ?thesis by (simp add: vc ch sim_Inl)
  next
    case (Inr tmp)
    with sm obtain h2 where h2: "abmin_st h1 arg d1 a b = Inr (h2, tmp)" "extends h1 h2"
      by (auto simp: sim_Inr)
    from f(1) h2(2) have e: "extends h h2" by (rule extends_trans)
    let ?v = "if fst tmp > v then fst tmp else v"
    let ?best = "if fst tmp > v then col else best"
    let ?a = "if ?v > a then ?v else a"
    show ?thesis
    proof (cases "?v \<ge> b")
      case True
      with Inr h2(1) dc e show ?thesis by (simp add: vc ch sim_Inr Let_def)
    next
      case False
      from e rest have r2: "refs_ok h2 rest" by (rule refs_ok_extends)
      from e rest have v2: "view_children h2 rest = view_children h rest"
        by (rule view_children_extends)
      from Cons.IH[OF r2, of ?a ?v ?best]
      have "sim h (abmax_loop_st h2 rest d1 ?a b ?v ?best)
                  (abmax_loop (view_children h rest) d1 ?a b ?v ?best)"
        unfolding v2 using e by (rule sim_mono)
      with False Inr h2(1) dc show ?thesis by (simp add: vc ch Let_def)
    qed
  qed
qed

lemma abmin_loop_st_sim:
  assumes H: "\<And>h t a b. board_ref t < length h \<Longrightarrow>
                sim h (abmax_st h t d1 a b) (abmax (view h t) d1 a b)"
    and refs: "refs_ok h cs"
  shows "sim h (abmin_loop_st h cs d1 a b v best) (abmin_loop (view_children h cs) d1 a b v best)"
  using refs
proof (induction cs arbitrary: h b v best)
  case Nil
  then show ?case by (simp add: view_children_def sim_Inr extends_refl)
next
  case (Cons ch rest)
  obtain t col where ch: "ch = (t, col)" by (cases ch)
  from Cons.prems ch have t: "board_ref t < length h" and rest: "refs_ok h rest"
    by (simp_all add: refs_ok_def)
  obtain h1 arg where dc: "deepcopy_st h t = (h1, arg)" by (cases "deepcopy_st h t")
  note f = deepcopy_st_facts[OF dc t]
  from f(3,4) have "board_ref arg < length h1" by simp
  from H[OF this, of a b] f(2)
  have sm: "sim h1 (abmax_st h1 arg d1 a b) (abmax (view h t) d1 a b)" by simp
  have vc: "view_children h ((t, col) # rest) = (view h t, col) # view_children h rest"
    by (simp add: view_children_def)
  show ?case
  proof (cases "abmax (view h t) d1 a b")
    case (Inl e)
    with sm have "abmax_st h1 arg d1 a b = Inl e" by (simp add: sim_Inl)
    with Inl dc show ?thesis by (simp add: vc ch sim_Inl)
  next
    case (Inr tmp)
    with sm obtain h2 where h2: "abmax_st h1 arg d1 a b = Inr (h2, tmp)" "extends h1 h2"
      by (auto simp: sim_Inr)
    from f(1) h2(2) have e: "extends h h2" by (rule extends_trans)
    let ?v = "if fst tmp < v then fst tmp else v"
    let ?best = "if fst tmp < v then col else best"
    let ?b = "if ?v < b then ?v else b"
    show ?thesis
    proof (cases "?v \<le> a")
      case True
      with Inr h2(1) dc e show ?thesis by (simp add: vc ch sim_Inr Let_def)
    next
      case False
      from e rest have r2: "refs_ok h2 rest" by (rule refs_ok_extends)
      from e rest have v2: "view_children h2 rest = view_children h rest"
        by (rule view_children_extends)
      from Cons.IH[OF r2, of ?b ?v ?best]
      have "sim h (abmin_loop_st h2 rest d1 a ?b ?v ?best)
                  (abmin_loop (view_children h rest) d1 a ?b ?v ?best)"
        unfolding v2 using e by (rule sim_mono)
      with False Inr h2(1) dc show ?thesis by (simp add: vc ch Let_def)
    qed
  qed
qed

lemma search_st_sim:
  "board_ref t < length h \<Longrightarrow>
     sim h (abmax_st h t d a b) (abmax (view h t) d a b)
   \<and> sim h (abmin_st h t d a b) (abmin (view h t) d a b)"
proof (induction d arbitrary: h t a b)
  case 0
  then show ?case
    by (simp add: abmax.simps abmin.simps abmax_st.simps abmin_st.simps
        sim_Inr extends_refl state_value_def view_def)
next
  case (Suc d)
  have fin: "is_finished_st t = is_finished (view h t)"
    by (simp add: is_finished_st_def is_finished_def view_def)
  show ?case
  proof (cases "is_finished (view h t)")
    case True
    with fin show ?thesis
      by (simp add: abmax.simps abmin.simps abmax_st.simps abmin_st.simps
          sim_Inr extends_refl state_value_def view_def)
  next
    case False
    have Hmin: "sim h' (abmin_st h' t' d a' b') (abmin (view h' t') d a' b')"
      if "board_ref t' < length h'" for h' t' a' b'
      using Suc.IH[OF that] by simp
    have Hmax: "sim h' (abmax_st h' t' d a' b') (abmax (view h' t') d a' b')"
      if "board_ref t' < length h'" for h' t' a' b'
      using Suc.IH[OF that] by simp
    from get_next_st_sim[OF Suc.prems] show ?thesis
    proof (elim disjE exE conjE)
      fix e assume "get_next (view h t) = Inl e" "get_next_st h t = Inl e"
      with False fin show ?thesis
        by (simp add: abmax.simps abmin.simps abmax_st.simps abmin_st.simps sim_Inl)
    next
      fix h' cs
      assume g: "get_next_st h t = Inr (h', cs)" "extends h h'" "refs_ok h' cs"
        "get_next (view h t) = Inr (view_children h' cs)"
      have "sim h (abmax_loop_st h' cs d a b NegInf 0)
                  (abmax_loop (view_children h' cs) d a b NegInf 0)"
        using abmax_loop_st_sim[OF Hmin g(3)] g(2) by (rule sim_mono)
      moreover have "sim h (abmin_loop_st h' cs d a b PosInf 0)
                  (abmin_loop (view_children h' cs) d a b PosInf 0)"
        using abmin_loop_st_sim[OF Hmax g(3)] g(2) by (rule sim_mono)
      ultimately show ?thesis using False fin g(1,4)
        by (simp add: abmax.simps abmin.simps abmax_st.simps abmin_st.simps)
    qed
  qed
qed


lemma search_total:
  "(\<exists>r. abmax s d a b = Inr r) \<and> (\<exists>r. abmin s d a b = Inr r)"
proof (induction d arbitrary: s a b)
  case 0
  then show ?case by (simp add: abmax.simps abmin.simps)
next
  case (Suc d)
  show ?case
  proof (cases "is_finished s")
    case True
    then show ?thesis by (simp add: abmax.simps abmin.simps)
  next
    case False
    from get_next_children[of s] obtain children where ch: "get_next s = Inr children" by blast
    have "\<forall>c \<in> set children. \<forall>a. \<exists>r. abmin (fst c) d a b = Inr r" using Suc.IH by blast
    from abmax_loop_total[OF this] obtain r1 where
      "abmax_loop children d a b NegInf 0 = Inr r1" by blast
    moreover
    have "\<forall>c \<in> set children. \<forall>b. \<exists>r. abmax (fst c) d a b = Inr r" using Suc.IH by blast
    from abmin_loop_total[OF this] obtain r2 where
      "abmin_loop children d a b PosInf 0 = Inr r2" by blast
    ultimately show ?thesis using False ch by (simp add: abmax.simps abmin.simps)
  qed
qed

text \<open>
  Claim C9. Whatever 6x7 array the caller passes, \<open>go\<close> returns with that array exactly as it
  was: run over the store, the engine returns the column that the engine over values
  returns, every array that existed before the call is unchanged at its address, the
  caller's among them, and all writes went to arrays allocated by the copies.
\<close>

theorem go_leaves_caller_board:
  assumes "r < length h" and "shape_ok (h ! r)"
  shows "\<exists>h' col. go_st h r = Inr (h', col) \<and> go (h ! r) = Inr col
           \<and> h' ! r = h ! r \<and> extends h h'"
proof -
  let ?t = "create_state_st h r"
  let ?a = "Fin (LOSS - 1)" and ?b = "Fin (VIC + 1)"
  have v: "view h ?t = create_state (h ! r)"
    by (simp add: view_def create_state_st_def create_state_def)
  from assms(1) have "board_ref ?t < length h" by (simp add: create_state_st_def)
  from search_st_sim[OF this, of DEPTH ?a ?b]
  have sm: "sim h (abmax_st h ?t DEPTH ?a ?b) (abmax (create_state (h ! r)) DEPTH ?a ?b)"
    unfolding v by simp
  from search_total[of "create_state (h ! r)" DEPTH ?a ?b] obtain res where
    res: "abmax (create_state (h ! r)) DEPTH ?a ?b = Inr res" by blast
  with sm obtain h' where h': "abmax_st h ?t DEPTH ?a ?b = Inr (h', res)" "extends h h'"
    by (auto simp: sim_Inr)
  from h'(2) assms(1) have "h' ! r = h ! r" by (rule extends_nth)
  moreover from res have "go (h ! r) = Inr (snd res)" by (simp add: go_def)
  moreover from h'(1) have "go_st h r = Inr (h', snd res)" by (simp add: go_st_def)
  ultimately show ?thesis using h'(2) by blast
qed

theorem go_leaves_caller_board_witness:
  "\<exists>h'. go_st two_board_store 1 = Inr (h', 5) \<and> h' ! 1 = last_cell_board
        \<and> h' ! 0 = sample_board"
proof -
  have len: "1 < length two_board_store" by (simp add: two_board_store_def)
  have sh: "shape_ok (two_board_store ! 1)" by code_simp
  have g: "go last_cell_board = Inr 5" by code_simp
  from go_leaves_caller_board[OF len sh] obtain h' col where
    *: "go_st two_board_store 1 = Inr (h', col)" "go (two_board_store ! 1) = Inr col"
       "h' ! 1 = two_board_store ! 1" "extends two_board_store h'" by blast
  from *(4) have "h' ! 0 = two_board_store ! 0" by (rule extends_nth) (simp add: two_board_store_def)
  with * g show ?thesis by (auto simp: two_board_store_def)
qed

subsection \<open>Independent copies\<close>

lemma make_move_st_ref:
  assumes "make_move_st h s col = Inr (h', t)"
  shows "board_ref t = board_ref s \<and> length h' = length h"
  using assms
  by (auto simp: make_move_st_def Let_def split: sum.splits if_splits)

lemma get_next_loop_st_fresh:
  assumes "get_next_loop_st h s cols = Inr (h', cs)"
  shows "list_all (\<lambda>(t, c). length h \<le> board_ref t) cs \<and> distinct (map (\<lambda>c. board_ref (fst c)) cs)"
  using assms
proof (induction cols arbitrary: h h' cs)
  case Nil
  then show ?case by simp
next
  case (Cons col cols)
  let ?h1 = "h @ [h ! board_ref s]" and ?cp = "s\<lparr>board_ref := length h\<rparr>"
  from Cons.prems obtain h2 t where mv: "make_move_st ?h1 ?cp col = Inr (h2, t)"
    by (auto simp: deepcopy_st_def split: sum.splits)
  with Cons.prems obtain rest where rest: "get_next_loop_st h2 s cols = Inr (h', rest)"
    and cs: "cs = (t, col) # rest"
    by (auto simp: deepcopy_st_def split: sum.splits)
  from make_move_st_ref[OF mv] have t: "board_ref t = length h" and len: "length h2 = Suc (length h)"
    by simp_all
  from Cons.IH[OF rest] have fresh: "list_all (\<lambda>(t, c). length h2 \<le> board_ref t) rest"
    and dist: "distinct (map (\<lambda>c. board_ref (fst c)) rest)" by blast+
  from fresh len have "list_all (\<lambda>(t, c). length h \<le> board_ref t) rest"
    by (auto simp: list_all_iff)
  moreover from fresh len t have "board_ref t \<notin> set (map (\<lambda>c. board_ref (fst c)) rest)"
    by (auto simp: list_all_iff)
  ultimately show ?case using cs t dist by simp
qed

lemma get_next_st_independent:
  assumes "board_ref t < length h"
  shows "\<exists>h' cs. get_next_st h t = Inr (h', cs) \<and> get_next (view h t) = Inr (view_children h' cs)
      \<and> extends h h' \<and> h' ! board_ref t = h ! board_ref t
      \<and> list_all (\<lambda>(u, c). length h \<le> board_ref u \<and> board_ref u < length h') cs
      \<and> distinct (map (\<lambda>c. board_ref (fst c)) cs)"
proof -
  from get_next_children[of "view h t"] obtain children where
    "get_next (view h t) = Inr children" by blast
  with get_next_st_sim[OF assms] obtain h' cs where
    g: "get_next_st h t = Inr (h', cs)" "extends h h'" "refs_ok h' cs"
       "get_next (view h t) = Inr (view_children h' cs)" by auto
  from g(1) have "get_next_loop_st h t
      (sort_key (\<lambda>x. \<bar>int x - int (COLUMN_COUNT div 2)\<bar>) (get_valid_columns (h ! board_ref t)))
      = Inr (h', cs)" by (simp add: get_next_st_def Let_def)
  from get_next_loop_st_fresh[OF this] g(3)
  have "list_all (\<lambda>(u, c). length h \<le> board_ref u \<and> board_ref u < length h') cs"
    and "distinct (map (\<lambda>c. board_ref (fst c)) cs)"
    by (auto simp: refs_ok_def list_all_iff)
  moreover from g(2) assms have "h' ! board_ref t = h ! board_ref t" by (rule extends_nth)
  ultimately show ?thesis using g by blast
qed


text \<open>
  Claim C6. On a state with a 6x7 board, \<open>get_next\<close> returns normally with exactly one child per legal column, in the
  order 3, 2, 4, 1, 5, 0, 6 restricted to the legal columns, that is by ascending distance
  from column 3 and ascending index at equal distance; each child is the result of
  \<open>make_move\<close> with that child's column on a copy of the state \<open>s\<close>. The copies are
  independent: over the store, the children's boards are at pairwise different addresses,
  all allocated by the call, and every array that existed before, the board of \<open>s\<close>
  included, is unchanged.
\<close>

theorem get_next_center_first:
  assumes "shape_ok (board s)"
  shows "\<exists>children. get_next s = Inr children
      \<and> map snd children = filter (legal_column (board s)) center_order
      \<and> set (map snd children) = {col. legal_column (board s) col}
      \<and> distinct (map snd children)
      \<and> sorted_wrt closer_to_center (map snd children)
      \<and> map (Inr \<circ> fst) children = map (make_move s \<circ> snd) children
      \<and> (\<forall>h t. board_ref t < length h \<and> view h t = s \<longrightarrow>
            (\<exists>h' cs. get_next_st h t = Inr (h', cs) \<and> view_children h' cs = children
               \<and> extends h h' \<and> h' ! board_ref t = h ! board_ref t
               \<and> list_all (\<lambda>(u, c). length h \<le> board_ref u \<and> board_ref u < length h') cs
               \<and> distinct (map (\<lambda>c. board_ref (fst c)) cs)))"
proof -
  from get_next_columns[of s] obtain children where ch: "get_next s = Inr children"
    and rest: "map snd children = filter (legal_column (board s)) center_order"
      "set (map snd children) = {col. legal_column (board s) col}"
      "distinct (map snd children)"
      "sorted_wrt closer_to_center (map snd children)"
      "map (Inr \<circ> fst) children = map (make_move s \<circ> snd) children"
    by blast
  have "\<exists>h' cs. get_next_st h t = Inr (h', cs) \<and> view_children h' cs = children
               \<and> extends h h' \<and> h' ! board_ref t = h ! board_ref t
               \<and> list_all (\<lambda>(u, c). length h \<le> board_ref u \<and> board_ref u < length h') cs
               \<and> distinct (map (\<lambda>c. board_ref (fst c)) cs)"
    if "board_ref t < length h" "view h t = s" for h t
  proof -
    from get_next_st_independent[OF that(1)] obtain h' cs where
      g: "get_next_st h t = Inr (h', cs)" "get_next (view h t) = Inr (view_children h' cs)"
         "extends h h'" "h' ! board_ref t = h ! board_ref t"
         "list_all (\<lambda>(u, c). length h \<le> board_ref u \<and> board_ref u < length h') cs"
         "distinct (map (\<lambda>c. board_ref (fst c)) cs)" by blast
    from g(2) that(2) ch have "view_children h' cs = children" by simp
    with g show ?thesis by blast
  qed
  with ch rest show ?thesis by blast
qed

theorem get_next_center_first_witness:
  "\<exists>children. get_next (create_state full_column_board) = Inr children
      \<and> map snd children = [3, 2, 4, 1, 5, 6]
      \<and> (\<exists>h' cs. get_next_st [full_column_board] (create_state_st [full_column_board] 0) = Inr (h', cs)
             \<and> view_children h' cs = children \<and> h' ! 0 = full_column_board)"
proof -
  let ?s = "create_state full_column_board"
  let ?h = "[full_column_board]" and ?t = "create_state_st [full_column_board] 0"
  have sh: "shape_ok (board ?s)" by code_simp
  have cols: "filter (legal_column (board ?s)) center_order = [3, 2, 4, 1, 5, 6]"
    by code_simp
  have r: "board_ref ?t < length ?h \<and> view ?h ?t = ?s" by code_simp
  from get_next_center_first[OF sh] obtain children where
    ch: "get_next ?s = Inr children"
      "map snd children = filter (legal_column (board ?s)) center_order"
    and st: "\<forall>h t. board_ref t < length h \<and> view h t = ?s \<longrightarrow>
            (\<exists>h' cs. get_next_st h t = Inr (h', cs) \<and> view_children h' cs = children
               \<and> extends h h' \<and> h' ! board_ref t = h ! board_ref t
               \<and> list_all (\<lambda>(u, c). length h \<le> board_ref u \<and> board_ref u < length h') cs
               \<and> distinct (map (\<lambda>c. board_ref (fst c)) cs))"
    by blast
  from st r obtain h' cs where
    "get_next_st ?h ?t = Inr (h', cs)" "view_children h' cs = children"
    "h' ! board_ref ?t = ?h ! board_ref ?t" by blast
  then have "get_next_st ?h ?t = Inr (h', cs) \<and> view_children h' cs = children
      \<and> h' ! 0 = full_column_board" by (simp add: create_state_st_def)
  with ch cols show ?thesis by auto
qed

end
